theory Spec2Isabelle
  imports Main
begin

section \<open>Constants of the module object\<close>

text \<open>
  The fields of the \<^verbatim>\<open>arkservers\<close> object literal of \<^verbatim>\<open>arkservers.js\<close>.
  JavaScript strings are modelled as \<^typ>\<open>string\<close> (code units below 256), port
  numbers as \<^typ>\<open>int\<close>.
\<close>

definition ARK_GAME_TYPE :: string where
  "ARK_GAME_TYPE = ''arkse''"

definition BASE_URI :: string where
  "BASE_URI = ''http://arkdedicated.com''"

definition VERSION_URI :: string where
  "VERSION_URI = ''/version''"

definition STATUS_URI :: string where
  "STATUS_URI = ''/officialserverstatus.ini''"

definition NEWS_URI :: string where
  "NEWS_URI = ''/news.ini''"

definition SERVER_LIST_URI :: string where
  "SERVER_LIST_URI = ''/officialservers.ini''"

definition PORT_LIST :: "int list" where
  "PORT_LIST = [27015, 27017, 27019, 27021]"

definition MAX_SERVER_ATTEMPTS :: int where
  "MAX_SERVER_ATTEMPTS = 3"

definition QUERY_SOCKET_TIMEOUT :: int where
  "QUERY_SOCKET_TIMEOUT = 1500"


section \<open>JavaScript values, errors and promises\<close>

text \<open>
  An exception or a rejected promise is a value \<open>Inl e\<close> of a sum type.
  \<open>TypeError\<close> is what the runtime throws (reading a property of \<^verbatim>\<open>undefined\<close>,
  \<^verbatim>\<open>reduce\<close> of an empty array with no initial value); \<open>Failure reason\<close> is the
  rejection reason of one of the two external capabilities (\<^verbatim>\<open>http.get\<close>,
  \<^verbatim>\<open>gamedig.query\<close>).
\<close>

datatype jserror = TypeError | Failure string

text \<open>
  The slots of the array that \<^verbatim>\<open>Promise.all\<close> fills: \<^verbatim>\<open>undefined\<close> until
  the promise of that index has resolved, then \<^verbatim>\<open>null\<close> or an object.
\<close>

datatype 'a jsval = Undefined | Null | Obj 'a

text \<open>
  A promise of the model is its eventual outcome together with the time at which it
  settles. Both external capabilities settle every promise they return (the queries have
  bounded attempts and a socket timeout); the order in which concurrent promises settle
  is free, hence the explicit time.
\<close>

record 'a promise =
  settles_at :: nat
  outcome :: "jserror + 'a"

text \<open>\<^verbatim>\<open>p.then(f)\<close>: a callback that throws rejects the derived promise.\<close>

definition then_p :: "('a \<Rightarrow> jserror + 'b) \<Rightarrow> 'a promise \<Rightarrow> 'b promise" where
  "then_p f p =
     \<lparr>settles_at = settles_at p,
      outcome = (case outcome p of Inl e \<Rightarrow> Inl e | Inr v \<Rightarrow> f v)\<rparr>"

text \<open>\<^verbatim>\<open>qpromise.catch(() => null)\<close>: a rejection becomes the value \<^verbatim>\<open>null\<close>.\<close>

definition catch_null :: "'a promise \<Rightarrow> 'a jsval promise" where
  "catch_null p =
     \<lparr>settles_at = settles_at p,
      outcome = (case outcome p of Inl e \<Rightarrow> Inr Null | Inr v \<Rightarrow> Inr (Obj v))\<rparr>"

text \<open>
  \<^verbatim>\<open>Promise.all(ps)\<close>, as the language defines it: the result array has one slot
  per input promise, initially \<^verbatim>\<open>undefined\<close>; when the promise of index \<open>i\<close>
  resolves its value is stored in slot \<open>i\<close>; the first promise to reject (in settling
  order) rejects the whole. \<open>settle_order\<close> lists the indices in the order in which the
  promises settle (ties in dispatch order).
\<close>

definition settle_order :: "'a promise list \<Rightarrow> nat list" where
  "settle_order ps = sort_key (\<lambda>i. settles_at (ps ! i)) [0..<length ps]"

fun all_loop :: "'a jsval promise list \<Rightarrow> nat list \<Rightarrow> 'a jsval list \<Rightarrow> jserror + 'a jsval list" where
  "all_loop ps [] vals = Inr vals"
| "all_loop ps (i # js) vals =
     (case outcome (ps ! i) of
        Inl e \<Rightarrow> Inl e
      | Inr v \<Rightarrow> all_loop ps js (vals[i := v]))"

definition Promise_all :: "'a jsval promise list \<Rightarrow> jserror + 'a jsval list" where
  "Promise_all ps = all_loop ps (settle_order ps) (replicate (length ps) Undefined)"


section \<open>String helpers used by the module\<close>

text \<open>\<^verbatim>\<open>s.split(sep)\<close> for a non-empty separator string.\<close>

function split_str :: "string \<Rightarrow> string \<Rightarrow> string \<Rightarrow> string list" where
  "split_str sep cur s =
     (if s = [] then [cur]
      else if sep \<noteq> [] \<and> take (length sep) s = sep
        then cur # split_str sep [] (drop (length sep) s)
      else split_str sep (cur @ [hd s]) (tl s))"
  by pat_completeness auto
termination
  by (relation "measure (\<lambda>(sep, cur, s). length s)") auto

text \<open>
  \<^verbatim>\<open>serverList.split(/\r?\n/)\<close>: a line ends at a line feed, which an immediately
  preceding carriage return joins.
\<close>

fun split_lines :: "string \<Rightarrow> string \<Rightarrow> string list" where
  "split_lines cur [] = [cur]"
| "split_lines cur [c] = (if c = CHR 0x0A then [cur, []] else [cur @ [c]])"
| "split_lines cur (c # d # cs) =
     (if c = CHR 0x0A then cur # split_lines [] (d # cs)
      else if c = CHR 0x0D \<and> d = CHR 0x0A then cur # split_lines [] cs
      else split_lines (cur @ [c]) (d # cs))"

text \<open>The class \<^verbatim>\<open>\s\<close>, on code units below 256.\<close>

definition is_space :: "char \<Rightarrow> bool" where
  "is_space c \<longleftrightarrow> c \<in> set [CHR 0x09, CHR 0x0A, CHR 0x0B, CHR 0x0C, CHR 0x0D, CHR 0x20, CHR 0xA0]"

text \<open>\<^verbatim>\<open>line.split(/\s+/)[0]\<close>: the text before the first white space.\<close>

definition first_token :: "string \<Rightarrow> string" where
  "first_token line = takeWhile (\<lambda>c. \<not> is_space c) line"

text \<open>
  \<^verbatim>\<open>gdVersion.replace(/\(v([^}]+)\)/, (match, p1) => p1)\<close>. \<open>match_version s\<close> tries
  the pattern at the start of \<open>s\<close>: the greedy group takes the longest run of characters
  other than \<^verbatim>\<open>}\<close> that a closing parenthesis follows. The leftmost match is replaced
  by its group.
\<close>

definition match_version :: "string \<Rightarrow> (string \<times> string) option" where
  "match_version s =
     (if take 2 s = ''(v'' then
        (let body = drop 2 s;
             run = takeWhile (\<lambda>c. c \<noteq> CHR ''}'') body;
             ks = filter (\<lambda>k. run ! k = CHR '')'') [1..<length run]
         in if ks = [] then None
            else Some (take (last ks) body, drop (Suc (last ks)) body))
      else None)"

fun replace_version :: "string \<Rightarrow> string" where
  "replace_version [] = []"
| "replace_version (c # cs) =
     (case match_version (c # cs) of
        Some (p1, rest) \<Rightarrow> p1 @ rest
      | None \<Rightarrow> c # replace_version cs)"


section \<open>The server record (arkserverinfo.js)\<close>

text \<open>
  The result object of a Gamedig query, with the properties the constructor of
  \<^verbatim>\<open>ArkServerInfo\<close> branches on. \<open>None\<close> is a property that is missing.
\<close>

record GameRules =
  DayTime_s :: "string option"
  SESSIONISPVE_i :: "string option"

record GamedigRaw =
  rules :: "GameRules option"

record GamedigResult =
  gd_name :: "string option"
  gd_map :: "string option"
  gd_maxplayers :: "int option"
  gd_raw :: "GamedigRaw option"

text \<open>
  \<^verbatim>\<open>ArkServerInfo\<close>. The fields \<^verbatim>\<open>players\<close> and \<^verbatim>\<open>dayNumber\<close> are left out: they
  hold floating-point numbers, computing them cannot throw beyond the read of
  \<^verbatim>\<open>raw.rules\<close> modelled below, and no function of \<^verbatim>\<open>arkservers.js\<close> reads them.
\<close>

record ArkServerInfo =
  gamedigQueryResult :: GamedigResult
  name :: "string option"
  version :: "string option"
  maxPlayers :: "int option"
  mapName :: "string option"
  mode :: "string option"

text \<open>
  The constructor. It throws a \<^verbatim>\<open>TypeError\<close> when the name has no \<^verbatim>\<open>' - '\<close>
  (the version part is \<^verbatim>\<open>undefined\<close>), and when \<^verbatim>\<open>raw\<close> is present without
  \<^verbatim>\<open>raw.rules\<close>.
\<close>

definition new_ArkServerInfo :: "GamedigResult \<Rightarrow> jserror + ArkServerInfo" where
  "new_ArkServerInfo gdResult =
     (case (case gd_name gdResult of
              None \<Rightarrow> Inr (None, None)
            | Some n \<Rightarrow>
                if n = [] then Inr (None, None)
                else (case take 2 (split_str '' - '' [] n) of
                        gdName # gdVersion # _ \<Rightarrow> Inr (Some gdName, Some (replace_version gdVersion))
                      | _ \<Rightarrow> Inl TypeError)) of
        Inl e \<Rightarrow> Inl e
      | Inr (nm, ver) \<Rightarrow>
          (case gd_raw gdResult of
             None \<Rightarrow>
               Inr \<lparr>gamedigQueryResult = gdResult, name = nm, version = ver,
                    maxPlayers = gd_maxplayers gdResult, mapName = gd_map gdResult,
                    mode = None\<rparr>
           | Some raw \<Rightarrow>
               (case rules raw of
                  None \<Rightarrow> Inl TypeError
                | Some r \<Rightarrow>
                    Inr \<lparr>gamedigQueryResult = gdResult, name = nm, version = ver,
                         maxPlayers = gd_maxplayers gdResult, mapName = gd_map gdResult,
                         mode = Some (if SESSIONISPVE_i r \<noteq> None \<and> SESSIONISPVE_i r \<noteq> Some []
                                      then ''PVE'' else ''PVP'')\<rparr>)))"

section \<open>The outside world\<close>

text \<open>
  The module has two external capabilities: \<^verbatim>\<open>http.get\<close> (through \<^verbatim>\<open>fetchUri\<close>)
  and \<^verbatim>\<open>gamedig.query\<close>. Every call is an effect; the effects issued so far, in
  dispatch order, form the trace that is passed through every function. What a call
  answers may depend on the whole trace before it (the network changes between calls),
  so the world is a family of answers indexed by the trace at the moment of dispatch.
\<close>

record Query =
  q_type :: string
  q_host :: string
  q_port :: int
  q_port_query :: int
  q_maxAttempts :: int
  q_socketTimeout :: int

datatype effect = HttpGet string | Gamedig Query

type_synonym trace = "effect list"

record world =
  httpGet :: "trace \<Rightarrow> string \<Rightarrow> jserror + string"
  gamedig :: "trace \<Rightarrow> Query \<Rightarrow> jserror + GamedigResult"
  settleTime :: "trace \<Rightarrow> Query \<Rightarrow> nat"

text \<open>
  An \<^verbatim>\<open>async\<close> function is modelled by its settled result and the trace after it.
  \<open>await m k\<close> is \<^verbatim>\<open>await\<close>: a rejected operand throws out of the function.
\<close>

type_synonym 'a async = "(jserror + 'a) \<times> trace"

definition await :: "'a async \<Rightarrow> ('a \<Rightarrow> trace \<Rightarrow> 'b async) \<Rightarrow> 'b async" where
  "await m k = (case m of (Inl e, t) \<Rightarrow> (Inl e, t) | (Inr x, t) \<Rightarrow> k x t)"

text \<open>\<^verbatim>\<open>fetchUri(baseUri, apiUri)\<close>, awaited: one GET of the joined URI.\<close>

definition fetchUri :: "world \<Rightarrow> string \<Rightarrow> string \<Rightarrow> trace \<Rightarrow> string async" where
  "fetchUri w baseUri apiUri t =
     (let fullUri = baseUri @ apiUri in (httpGet w t fullUri, t @ [HttpGet fullUri]))"

definition queryForHost :: "string \<Rightarrow> int \<Rightarrow> Query" where
  "queryForHost host' port' =
     \<lparr>q_type = ARK_GAME_TYPE, q_host = host', q_port = port', q_port_query = port',
      q_maxAttempts = MAX_SERVER_ATTEMPTS, q_socketTimeout = QUERY_SOCKET_TIMEOUT\<rparr>"

text \<open>\<^verbatim>\<open>gamedigQuery(query)\<close>: the promise of one live query dispatched at trace \<open>t\<close>.\<close>

definition gamedigQuery :: "world \<Rightarrow> trace \<Rightarrow> Query \<Rightarrow> GamedigResult promise" where
  "gamedigQuery w t query = \<lparr>settles_at = settleTime w t query, outcome = gamedig w t query\<rparr>"


section \<open>getServerPromises and getServerList\<close>

text \<open>
  \<^verbatim>\<open>xs.reduce((acc, val) => acc.concat(val))\<close> with no initial value: the first
  element starts the accumulator, and an empty array throws a \<^verbatim>\<open>TypeError\<close>.
\<close>

fun reduce_concat :: "'a list list \<Rightarrow> jserror + 'a list" where
  "reduce_concat [] = Inl TypeError"
| "reduce_concat (x # xs) = Inr (foldl (@) x xs)"

text \<open>
  \<^verbatim>\<open>serverQueries.map(query => gamedigQuery(query).then(result => new ArkServerInfo(result)))\<close>:
  the queries are dispatched one after the other, in list order.
\<close>

fun dispatch :: "world \<Rightarrow> Query list \<Rightarrow> trace \<Rightarrow> ArkServerInfo promise list \<times> trace" where
  "dispatch w [] t = ([], t)"
| "dispatch w (query # qs) t =
     (let p = then_p new_ArkServerInfo (gamedigQuery w t query);
          (ps, t') = dispatch w qs (t @ [Gamedig query])
      in (p # ps, t'))"

text \<open>
  An argument that is \<^verbatim>\<open>null\<close> (or left out) is \<open>None\<close>. Every array is truthy in
  JavaScript, the empty one too, so \<^verbatim>\<open>serverIPs || ...\<close> and \<^verbatim>\<open>ports || ...\<close> take
  the default only for \<open>None\<close>.

  \<^verbatim>\<open>serverIPs || await (async () => { ... })()\<close>: the list that was passed, or the
  first white-space-delimited token of every line of the fetched server list.
\<close>

definition useServerIPs :: "world \<Rightarrow> string list option \<Rightarrow> trace \<Rightarrow> string list async" where
  "useServerIPs w serverIPs t =
     (case serverIPs of
        Some ips \<Rightarrow> (Inr ips, t)
      | None \<Rightarrow>
          await (fetchUri w BASE_URI SERVER_LIST_URI t)
            (\<lambda>serverList t1. (Inr (map first_token (split_lines [] serverList)), t1)))"

text \<open>\<^verbatim>\<open>ports || arkservers.PORT_LIST\<close>.\<close>

definition usePorts :: "int list option \<Rightarrow> int list" where
  "usePorts ports = (case ports of Some ps \<Rightarrow> ps | None \<Rightarrow> PORT_LIST)"

definition getServerPromises ::
    "world \<Rightarrow> string list option \<Rightarrow> int list option \<Rightarrow> trace \<Rightarrow> ArkServerInfo promise list async" where
  "getServerPromises w serverIPs ports t =
     await (useServerIPs w serverIPs t)
       (\<lambda>ips t1.
          case reduce_concat
                 (map (\<lambda>serverIP. map (\<lambda>port'. queryForHost serverIP port') (usePorts ports)) ips) of
            Inl e \<Rightarrow> (Inl e, t1)
          | Inr serverQueries \<Rightarrow>
              (let (serverPromises, t2) = dispatch w serverQueries t1
               in (Inr serverPromises, t2)))"

definition getServerList ::
    "world \<Rightarrow> string list option \<Rightarrow> int list option \<Rightarrow> trace \<Rightarrow> ArkServerInfo jsval list async" where
  "getServerList w serverIPs ports t =
     await (getServerPromises w serverIPs ports t)
       (\<lambda>serverPromises t1.
          let nullablePromises = map catch_null serverPromises
          in await (Promise_all nullablePromises, t1)
               (\<lambda>resolved t2. (Inr (filter (\<lambda>val. val \<noteq> Null) resolved), t2)))"


section \<open>getServerInfo\<close>

text \<open>
  The options object \<^verbatim>\<open>{ host = null, port = null, fallback = true } = {}\<close>. A hint
  that is \<^verbatim>\<open>null\<close> or not given is \<open>None\<close>; \<open>fallback\<close> is \<open>None\<close> when not given,
  and the default \<^verbatim>\<open>true\<close> then applies.
\<close>

record options =
  host :: "string option"
  port :: "int option"
  fallback :: "bool option"

text \<open>Truthiness of the hints: \<^verbatim>\<open>!!host\<close> and \<^verbatim>\<open>!!port\<close>.\<close>

definition truthy_host :: "string option \<Rightarrow> bool" where
  "truthy_host h = (case h of None \<Rightarrow> False | Some s \<Rightarrow> s \<noteq> [])"

definition truthy_port :: "int option \<Rightarrow> bool" where
  "truthy_port p = (case p of None \<Rightarrow> False | Some n \<Rightarrow> n \<noteq> 0)"

text \<open>\<^verbatim>\<open>host ? [host] : null\<close> and \<^verbatim>\<open>port ? [port] : null\<close>.\<close>

definition host_arg :: "string option \<Rightarrow> string list option" where
  "host_arg h = (case h of None \<Rightarrow> None | Some s \<Rightarrow> if s \<noteq> [] then Some [s] else None)"

definition port_arg :: "int option \<Rightarrow> int list option" where
  "port_arg p = (case p of None \<Rightarrow> None | Some n \<Rightarrow> if n \<noteq> 0 then Some [n] else None)"

text \<open>
  \<^verbatim>\<open>list.filter(info => info.name === serverName)\<close>. Reading \<^verbatim>\<open>.name\<close> of
  \<^verbatim>\<open>undefined\<close> or \<^verbatim>\<open>null\<close> throws.
\<close>

fun filter_name :: "string \<Rightarrow> ArkServerInfo jsval list \<Rightarrow> jserror + ArkServerInfo jsval list" where
  "filter_name serverName [] = Inr []"
| "filter_name serverName (Obj info # rest) =
     (case filter_name serverName rest of
        Inl e \<Rightarrow> Inl e
      | Inr keep \<Rightarrow> Inr (if name info = Some serverName then Obj info # keep else keep))"
| "filter_name serverName (_ # rest) = Inl TypeError"

text \<open>
  One query round: \<^verbatim>\<open>(await arkservers.getServerList(a, b)).filter(info => info.name === serverName)\<close>,
  the expression each of the four stages evaluates.
\<close>

definition round ::
    "world \<Rightarrow> string \<Rightarrow> string list option \<Rightarrow> int list option \<Rightarrow> trace \<Rightarrow> ArkServerInfo jsval list async" where
  "round w serverName serverIPs ports t =
     await (getServerList w serverIPs ports t)
       (\<lambda>infos t1. (filter_name serverName infos, t1))"

definition getServerInfo :: "world \<Rightarrow> string \<Rightarrow> options \<Rightarrow> trace \<Rightarrow> ArkServerInfo jsval async" where
  "getServerInfo w serverName opts t =
     (let fb = (case fallback opts of None \<Rightarrow> True | Some b \<Rightarrow> b) in
      await (round w serverName (host_arg (host opts)) (port_arg (port opts)) t)
        (\<lambda>resultList1 t1.
      await (case (host opts, port opts) of
               (Some h, Some p) \<Rightarrow>
                 if resultList1 = [] \<and> fb \<and> truthy_host (Some h) \<and> truthy_port (Some p) then
                   await (round w serverName (Some [h]) None t1)
                     (\<lambda>resultList2 t2.
                        if resultList2 = [] then round w serverName None (Some [p]) t2
                        else (Inr resultList2, t2))
                 else (Inr resultList1, t1)
             | _ \<Rightarrow> (Inr resultList1, t1))
        (\<lambda>resultList3 t3.
      await (if resultList3 = [] \<and> fb \<and> (truthy_host (host opts) \<or> truthy_port (port opts))
             then round w serverName None None t3
             else (Inr resultList3, t3))
        (\<lambda>resultList t4.
           (Inr (case resultList of [] \<Rightarrow> Null | info # _ \<Rightarrow> info), t4)))))"

section \<open>The cached endpoints\<close>

text \<open>
  \<^verbatim>\<open>cachedUri\<close> memoizes, per argument pair, one closure \<^verbatim>\<open>cacher\<close> with a
  private \<^verbatim>\<open>state\<close> object. The memoization key \<^verbatim>\<open>JSON.stringify(args)\<close> is
  injective on pairs of strings, so the key of the model is the pair itself. A closure
  that has not been created yet is one whose state still has its initial value, so the
  memoization table is a total function from keys to closure states.
\<close>

type_synonym key = "string \<times> string"

record cacher_state =
  cachedValue :: "string option"
  inProgress :: bool

definition makeCacher :: cacher_state where
  "makeCacher = \<lparr>cachedValue = None, inProgress = False\<rparr>"

text \<open>
  The runtime state around the closures: the fetches a \<^verbatim>\<open>cacher\<close> has dispatched
  that have not settled yet, and the log of every \<^verbatim>\<open>fetchUri\<close> call a \<^verbatim>\<open>cacher\<close>
  has made.
\<close>

record cache =
  closures :: "key \<Rightarrow> cacher_state"
  inFlight :: "key list"
  fetched :: "key list"

definition startup :: cache where
  "startup = \<lparr>closures = (\<lambda>k. makeCacher), inFlight = [], fetched = []\<rparr>"

text \<open>
  \<^verbatim>\<open>cachedUri(baseUri, apiUri)()\<close>: the body of \<^verbatim>\<open>cacher\<close>. The callbacks of the
  fetch run later, never inside the call, so the value returned is the one read before.
\<close>

definition cacher :: "key \<Rightarrow> cache \<Rightarrow> string option \<times> cache" where
  "cacher k c =
     (let state = closures c k in
      if cachedValue state = None then
        if \<not> inProgress state then
          (cachedValue state,
           c\<lparr>closures := (closures c)(k := state\<lparr>inProgress := True\<rparr>),
             inFlight := inFlight c @ [k],
             fetched := fetched c @ [k]\<rparr>)
        else (cachedValue state, c)
      else (cachedValue state, c))"

text \<open>The \<^verbatim>\<open>.then\<close> callback of the fetch.\<close>

definition on_result :: "key \<Rightarrow> string \<Rightarrow> cache \<Rightarrow> cache" where
  "on_result k result c =
     c\<lparr>closures := (closures c)(k := (closures c k)\<lparr>cachedValue := Some result, inProgress := False\<rparr>)\<rparr>"

text \<open>The \<^verbatim>\<open>.catch\<close> callback of the fetch (the log line is not modelled).\<close>

definition on_error :: "key \<Rightarrow> cache \<Rightarrow> cache" where
  "on_error k c =
     c\<lparr>closures := (closures c)(k := (closures c k)\<lparr>inProgress := False\<rparr>)\<rparr>"

definition getCachedVersion :: "cache \<Rightarrow> string option \<times> cache" where
  "getCachedVersion c = cacher (BASE_URI, VERSION_URI) c"

definition getCachedStatus :: "cache \<Rightarrow> string option \<times> cache" where
  "getCachedStatus c = cacher (BASE_URI, STATUS_URI) c"

definition getCachedNews :: "cache \<Rightarrow> string option \<times> cache" where
  "getCachedNews c = cacher (BASE_URI, NEWS_URI) c"

text \<open>
  Loading the module primes the three caches:
  \<^verbatim>\<open>arkservers.getCachedVersion(); arkservers.getCachedStatus(); arkservers.getCachedNews();\<close>
\<close>

definition module_load :: cache where
  "module_load = snd (getCachedNews (snd (getCachedStatus (snd (getCachedVersion startup)))))"

text \<open>
  What happens to the cache, one event at a time: a call of a \<^verbatim>\<open>cacher\<close>, or the
  settling of a fetch in flight (fulfilled with the text, or rejected with a reason).
  A fetch that is not in flight cannot settle: such an event is impossible (\<open>None\<close>).
\<close>

datatype event = Call key | Fulfil key string | Reject key string

datatype observation = Returned key "string option" | Settled key

fun step :: "cache \<Rightarrow> event \<Rightarrow> (observation \<times> cache) option" where
  "step c (Call k) = (let (r, c') = cacher k c in Some (Returned k r, c'))"
| "step c (Fulfil k result) =
     (if k \<in> set (inFlight c)
      then Some (Settled k, on_result k result (c\<lparr>inFlight := remove1 k (inFlight c)\<rparr>))
      else None)"
| "step c (Reject k reason) =
     (if k \<in> set (inFlight c)
      then Some (Settled k, on_error k (c\<lparr>inFlight := remove1 k (inFlight c)\<rparr>))
      else None)"

fun run :: "cache \<Rightarrow> event list \<Rightarrow> (observation list \<times> cache) option" where
  "run c [] = Some ([], c)"
| "run c (e # es) =
     (case step c e of
        None \<Rightarrow> None
      | Some (ob, c') \<Rightarrow>
          (case run c' es of
             None \<Rightarrow> None
           | Some (obs, c'') \<Rightarrow> Some (ob # obs, c'')))"

text \<open>The states the module can be in: those some sequence of events leads to.\<close>

definition reachable :: "cache \<Rightarrow> bool" where
  "reachable c \<longleftrightarrow> (\<exists>es obs. run startup es = Some (obs, c))"

text \<open>
  The invariant of the cache: a key has a fetch in flight exactly when its
  \<^verbatim>\<open>inProgress\<close> flag is set, never more than one, and never while a value is cached.
\<close>

definition cache_inv :: "cache \<Rightarrow> bool" where
  "cache_inv c \<longleftrightarrow>
     (\<forall>k. count_list (inFlight c) k = (if inProgress (closures c k) then 1 else 0)) \<and>
     (\<forall>k. inProgress (closures c k) \<longrightarrow> cachedValue (closures c k) = None)"

text \<open>The event settles a fetch of \<open>k\<close>.\<close>

fun settles :: "key \<Rightarrow> event \<Rightarrow> bool" where
  "settles k (Call k') = False"
| "settles k (Fulfil k' result) = (k' = k)"
| "settles k (Reject k' reason) = (k' = k)"

text \<open>The failure-and-retry cycle: the fetch in flight fails, then the next call.\<close>

fun retry_rounds :: "key \<Rightarrow> string \<Rightarrow> nat \<Rightarrow> event list" where
  "retry_rounds k reason 0 = []"
| "retry_rounds k reason (Suc n) = Reject k reason # Call k # retry_rounds k reason n"


section \<open>Notions of the specification\<close>

text \<open>
  The Cartesian product of an IP list and a port list as query targets, IP-major.
\<close>

definition targets :: "string list \<Rightarrow> int list \<Rightarrow> Query list" where
  "targets ips ports = map (\<lambda>(ip, p). queryForHost ip p) (List.product ips ports)"

text \<open>
  The record a target yields when queried at trace \<open>t\<close>: none when the query fails or
  its result cannot be shaped into a record.
\<close>

definition record_of :: "world \<Rightarrow> trace \<Rightarrow> Query \<Rightarrow> ArkServerInfo option" where
  "record_of w t query =
     (case gamedig w t query of
        Inl e \<Rightarrow> None
      | Inr result \<Rightarrow> (case new_ArkServerInfo result of Inl e \<Rightarrow> None | Inr info \<Rightarrow> Some info))"

text \<open>The records of the targets that succeed, in dispatch order.\<close>

fun collect :: "world \<Rightarrow> Query list \<Rightarrow> trace \<Rightarrow> ArkServerInfo list" where
  "collect w [] t = []"
| "collect w (query # qs) t =
     (case record_of w t query of
        None \<Rightarrow> collect w qs (t @ [Gamedig query])
      | Some info \<Rightarrow> info # collect w qs (t @ [Gamedig query]))"

text \<open>The values of the promises that resolved, in list order.\<close>

definition successes :: "'a promise list \<Rightarrow> 'a list" where
  "successes ps = List.map_filter (\<lambda>p. case outcome p of Inl e \<Rightarrow> None | Inr v \<Rightarrow> Some v) ps"

text \<open>What \<^verbatim>\<open>qpromise.catch(() => null)\<close> resolves to.\<close>

definition settled_value :: "'a promise \<Rightarrow> 'a jsval" where
  "settled_value p = (case outcome p of Inl e \<Rightarrow> Null | Inr v \<Rightarrow> Obj v)"

text \<open>
  The resolver of the specification: the stages that apply to a request, as the argument
  pairs of their query rounds, and the state machine that tries them in order and stops
  at the first stage with a match.
\<close>

definition use_fallback :: "options \<Rightarrow> bool" where
  "use_fallback opts = (case fallback opts of None \<Rightarrow> True | Some b \<Rightarrow> b)"

definition hinted_stage :: "options \<Rightarrow> string list option \<times> int list option" where
  "hinted_stage opts = (host_arg (host opts), port_arg (port opts))"

definition host_only_stage :: "options \<Rightarrow> string list option \<times> int list option" where
  "host_only_stage opts = (host_arg (host opts), None)"

definition port_only_stage :: "options \<Rightarrow> string list option \<times> int list option" where
  "port_only_stage opts = (None, port_arg (port opts))"

definition full_scan_stage :: "string list option \<times> int list option" where
  "full_scan_stage = (None, None)"

definition stage_plan :: "options \<Rightarrow> (string list option \<times> int list option) list" where
  "stage_plan opts =
     hinted_stage opts #
     (if use_fallback opts \<and> truthy_host (host opts) \<and> truthy_port (port opts)
      then [host_only_stage opts, port_only_stage opts] else []) @
     (if use_fallback opts \<and> (truthy_host (host opts) \<or> truthy_port (port opts))
      then [full_scan_stage] else [])"

fun resolve ::
    "world \<Rightarrow> string \<Rightarrow> (string list option \<times> int list option) list \<Rightarrow> trace \<Rightarrow> ArkServerInfo jsval async" where
  "resolve w serverName [] t = (Inr Null, t)"
| "resolve w serverName ((serverIPs, ports) # later) t =
     await (round w serverName serverIPs ports t)
       (\<lambda>found t1. case found of [] \<Rightarrow> resolve w serverName later t1 | info # _ \<Rightarrow> (Inr info, t1))"

text \<open>The server-list fetches and the live queries in a trace.\<close>

definition is_fetch :: "effect \<Rightarrow> bool" where
  "is_fetch e = (case e of HttpGet uri \<Rightarrow> True | Gamedig query \<Rightarrow> False)"

section \<open>An example deployment\<close>

text \<open>
  A fleet of two hosts. Three servers answer; every other query times out. A query
  settles the sooner the higher its port, so the queries of one host settle in the
  reverse of their dispatch order.
\<close>

definition srv :: "string \<Rightarrow> GamedigResult" where
  "srv n =
     \<lparr>gd_name = Some (n @ '' - (v281.110)''), gd_map = Some ''Aberration'',
      gd_maxplayers = Some 70, gd_raw = None\<rparr>"

definition fleet :: world where
  "fleet =
     \<lparr>httpGet = (\<lambda>t uri.
         if uri = BASE_URI @ SERVER_LIST_URI
         then Inr (''1.2.3.4 x'' @ [CHR 0x0D, CHR 0x0A] @ ''5.6.7.8'')
         else Inl (Failure ''ENOTFOUND'')),
      gamedig = (\<lambda>t query.
         if q_host query = ''1.2.3.4'' \<and> q_port query = 27015 then Inr (srv ''Srv-B'')
         else if q_host query = ''5.6.7.8'' \<and> q_port query = 27019 then Inr (srv ''Srv-A'')
         else if q_host query = ''5.6.7.8'' \<and> q_port query = 27021 then Inr (srv ''Srv-C'')
         else Inl (Failure ''timeout'')),
      settleTime = (\<lambda>t query. nat (27021 - q_port query))\<rparr>"

text \<open>The record the constructor makes of \<open>srv n\<close>, for a plain name \<open>n\<close>.\<close>

definition info_of :: "string \<Rightarrow> ArkServerInfo" where
  "info_of n =
     \<lparr>gamedigQueryResult = srv n, name = Some n, version = Some ''281.110'',
      maxPlayers = Some 70, mapName = Some ''Aberration'', mode = None\<rparr>"


text \<open>The same fleet when the server list cannot be fetched.\<close>

definition offline :: world where
  "offline = fleet\<lparr>httpGet := \<lambda>t uri. Inl (Failure ''ENOTFOUND'')\<rparr>"


section \<open>The fan-out: Promise.all over promises that cannot reject\<close>

lemma all_loop_resolved:
  "(\<And>i. i \<in> set js \<Longrightarrow> outcome (ps ! i) = Inr (f i)) \<Longrightarrow>
     all_loop ps js vals = Inr (fold (\<lambda>i vs. vs[i := f i]) js vals)"
  by (induction js arbitrary: vals) simp_all

lemma length_fold_update:
  "length (fold (\<lambda>i vs. vs[i := f i]) js vals) = length vals"
  by (induction js arbitrary: vals) simp_all

lemma nth_fold_update:
  "j < length vals \<Longrightarrow>
     fold (\<lambda>i vs. vs[i := f i]) js vals ! j = (if j \<in> set js then f j else vals ! j)"
proof (induction js arbitrary: vals)
  case Nil
  then show ?case by simp
next
  case (Cons i js)
  then show ?case by (cases "i = j") auto
qed

lemma set_settle_order: "set (settle_order ps) = {0..<length ps}"
  by (simp add: settle_order_def)

lemma outcome_catch_null: "outcome (catch_null p) = Inr (settled_value p)"
  by (simp add: catch_null_def settled_value_def split: sum.splits)

lemma Promise_all_catch_null:
  "Promise_all (map catch_null ps) = Inr (map settled_value ps)"
proof -
  let ?qs = "map catch_null ps"
  let ?f = "\<lambda>i. settled_value (ps ! i)"
  have "all_loop ?qs (settle_order ?qs) (replicate (length ?qs) Undefined) =
          Inr (fold (\<lambda>i vs. vs[i := ?f i]) (settle_order ?qs) (replicate (length ?qs) Undefined))"
    by (rule all_loop_resolved) (simp add: set_settle_order outcome_catch_null)
  moreover have "fold (\<lambda>i vs. vs[i := ?f i]) (settle_order ?qs) (replicate (length ?qs) Undefined) =
          map settled_value ps"
    by (rule nth_equalityI) (simp_all add: length_fold_update nth_fold_update set_settle_order)
  ultimately show ?thesis by (simp add: Promise_all_def)
qed

lemma filter_settled: "filter (\<lambda>val. val \<noteq> Null) (map settled_value ps) = map Obj (successes ps)"
  by (induction ps) (auto simp: successes_def settled_value_def List.map_filter_simps split: sum.splits)

lemma getServerList_successes:
  "getServerList w serverIPs ports t =
     await (getServerPromises w serverIPs ports t)
       (\<lambda>serverPromises t1. (Inr (map Obj (successes serverPromises)), t1))"
  by (simp add: getServerList_def await_def Promise_all_catch_null filter_settled
      split: prod.splits sum.splits)

lemma foldl_append_concat: "foldl (@) x xs = x @ concat xs"
  by (induction xs arbitrary: x) simp_all

lemma reduce_concat_nonempty: "xs \<noteq> [] \<Longrightarrow> reduce_concat xs = Inr (concat xs)"
  by (cases xs) (simp_all add: foldl_append_concat)

lemma concat_targets:
  "concat (map (\<lambda>serverIP. map (\<lambda>port'. queryForHost serverIP port') ports) ips) = targets ips ports"
  by (induction ips) (simp_all add: targets_def)

lemma dispatch_trace: "snd (dispatch w qs t) = t @ map Gamedig qs"
  by (induction qs arbitrary: t) (simp_all add: split_def Let_def)

lemma length_dispatch: "length (fst (dispatch w qs t)) = length qs"
  by (induction qs arbitrary: t) (simp_all add: split_def Let_def)

lemma successes_Cons:
  "successes (p # ps) = (case outcome p of Inl e \<Rightarrow> successes ps | Inr v \<Rightarrow> v # successes ps)"
  by (simp add: successes_def List.map_filter_simps split: sum.splits)

lemma successes_dispatch: "successes (fst (dispatch w qs t)) = collect w qs t"
  by (induction qs arbitrary: t)
     (simp_all add: successes_Cons split_def Let_def then_p_def gamedigQuery_def record_of_def
        successes_def List.map_filter_simps split: sum.splits)

lemma getServerPromises_ips:
  assumes "useServerIPs w serverIPs t = (Inr ips, t1)" and "ips \<noteq> []"
  shows "getServerPromises w serverIPs ports t =
           (Inr (fst (dispatch w (targets ips (usePorts ports)) t1)),
            t1 @ map Gamedig (targets ips (usePorts ports)))"
  using assms
  by (simp add: getServerPromises_def await_def reduce_concat_nonempty concat_targets
        split_def Let_def dispatch_trace)

lemma getServerList_ips:
  assumes "useServerIPs w serverIPs t = (Inr ips, t1)" and "ips \<noteq> []"
  shows "getServerList w serverIPs ports t =
           (Inr (map Obj (collect w (targets ips (usePorts ports)) t1)),
            t1 @ map Gamedig (targets ips (usePorts ports)))"
  by (simp add: getServerList_successes getServerPromises_ips [OF assms] await_def successes_dispatch)

lemma settleTime_irrelevant_dispatch:
  "map outcome (fst (dispatch (w\<lparr>settleTime := d\<rparr>) qs t)) = map outcome (fst (dispatch w qs t))"
  by (induction qs arbitrary: t) (simp_all add: split_def Let_def then_p_def gamedigQuery_def)

lemma map_filter_map_comp: "List.map_filter f (map g xs) = List.map_filter (\<lambda>x. f (g x)) xs"
  by (induction xs) (simp_all add: List.map_filter_simps split: option.splits)

lemma successes_outcomes:
  "successes ps = List.map_filter (\<lambda>r. case r of Inl e \<Rightarrow> None | Inr v \<Rightarrow> Some v) (map outcome ps)"
  by (simp add: successes_def map_filter_map_comp)

lemma getServerList_settleTime:
  "getServerList (w\<lparr>settleTime := d\<rparr>) serverIPs ports t = getServerList w serverIPs ports t"
proof -
  have u: "useServerIPs (w\<lparr>settleTime := d\<rparr>) serverIPs t = useServerIPs w serverIPs t"
    by (simp add: useServerIPs_def fetchUri_def split: option.splits)
  have s: "successes (fst (dispatch (w\<lparr>settleTime := d\<rparr>) qs t1)) = successes (fst (dispatch w qs t1))" for qs t1
    by (simp add: successes_outcomes settleTime_irrelevant_dispatch)
  have tr: "snd (dispatch (w\<lparr>settleTime := d\<rparr>) qs t1) = snd (dispatch w qs t1)" for qs t1
    by (simp add: dispatch_trace)
  show ?thesis
    by (simp add: getServerList_successes getServerPromises_def await_def u s tr split_def Let_def
        split: prod.splits sum.splits)
qed

lemma collect_nth:
  "collect w qs t =
     List.map_filter (\<lambda>i. record_of w (t @ map Gamedig (take i qs)) (qs ! i)) [0..<length qs]"
proof (induction qs arbitrary: t)
  case Nil
  then show ?case by (simp add: List.map_filter_simps)
next
  case (Cons q qs)
  have "[0..<length (q # qs)] = 0 # map Suc [0..<length qs]"
    by (simp add: upt_conv_Cons map_Suc_upt del: upt_Suc)
  then show ?case
    by (simp add: Cons.IH List.map_filter_simps map_filter_map_comp split: option.splits del: upt_Suc)
qed



lemma successes_Nil: "successes [] = []"
  by (simp add: successes_def List.map_filter_simps)

lemma successes_all_failed: "\<forall>p\<in>set ps. \<exists>e. outcome p = Inl e \<Longrightarrow> successes ps = []"
  by (induction ps) (auto simp: successes_Cons successes_Nil)

lemma srv_A: "new_ArkServerInfo (srv ''Srv-A'') = Inr (info_of ''Srv-A'')"
  by (simp add: new_ArkServerInfo_def srv_def info_of_def match_version_def)

lemma srv_B: "new_ArkServerInfo (srv ''Srv-B'') = Inr (info_of ''Srv-B'')"
  by (simp add: new_ArkServerInfo_def srv_def info_of_def match_version_def)

lemma srv_C: "new_ArkServerInfo (srv ''Srv-C'') = Inr (info_of ''Srv-C'')"
  by (simp add: new_ArkServerInfo_def srv_def info_of_def match_version_def)

lemma fleet_explicit:
  "ips \<noteq> [] \<Longrightarrow> getServerPromises fleet (Some ips) ports t =
     (Inr (fst (dispatch fleet (targets ips (usePorts ports)) t)),
      t @ map Gamedig (targets ips (usePorts ports)))"
  by (rule getServerPromises_ips) (simp_all add: useServerIPs_def)


lemma dispatch_nth:
  "i < length qs \<Longrightarrow>
     fst (dispatch w qs t) ! i =
       then_p new_ArkServerInfo (gamedigQuery w (t @ map Gamedig (take i qs)) (qs ! i))"
proof (induction qs arbitrary: t i)
  case Nil
  then show ?case by simp
next
  case (Cons q qs)
  then show ?case by (cases i) (simp_all add: split_def Let_def)
qed

lemma outcome_query_promise:
  "outcome (then_p new_ArkServerInfo (gamedigQuery w t query)) =
     (case gamedig w t query of Inl e \<Rightarrow> Inl e | Inr result \<Rightarrow> new_ArkServerInfo result)"
  by (simp add: then_p_def gamedigQuery_def)

lemma record_of_outcome:
  "record_of w t query =
     (case outcome (then_p new_ArkServerInfo (gamedigQuery w t query)) of
        Inl e \<Rightarrow> None | Inr info \<Rightarrow> Some info)"
  by (simp add: record_of_def outcome_query_promise split: sum.splits)

lemma map_filter_all_None: "(\<And>x. x \<in> set xs \<Longrightarrow> f x = None) \<Longrightarrow> List.map_filter f xs = []"
  by (induction xs) (simp_all add: List.map_filter_simps)

lemma set_map_filter: "set (List.map_filter f xs) = {y. \<exists>x\<in>set xs. f x = Some y}"
  by (induction xs) (auto simp: List.map_filter_simps split: option.splits)


section \<open>Claims about the fan-out\<close>

text \<open>
  C3 (fan-out resilience). Let \<open>T\<close> be the target list built from the IP list (passed
  or fetched, not empty) and the port list, and let the answer of target \<open>i\<close> be the
  record its query yields when dispatched after the \<open>i\<close> targets before it, or none
  when that query fails. \<open>getServerPromises\<close> dispatches one query per target of \<open>T\<close>
  and its promise \<open>i\<close> settles as that query does; every rejection is turned into
  \<^verbatim>\<open>null\<close> for its own slot, so \<^verbatim>\<open>Promise.all\<close> resolves. \<open>getServerList\<close> does
  not reject and returns exactly the records of the targets that succeed: a record is
  returned if and only if some target answers it, and there are as many records as
  targets that succeed. When every target fails the result is the empty list, not an
  error.
\<close>

theorem fan_out_resilience:
  assumes "useServerIPs w serverIPs t = (Inr ips, t1)" and "ips \<noteq> []"
  shows "let T = targets ips (usePorts ports);
             answer = (\<lambda>i. record_of w (t1 @ map Gamedig (take i T)) (T ! i))
         in (\<exists>ps. getServerPromises w serverIPs ports t = (Inr ps, t1 @ map Gamedig T) \<and>
                length ps = length T \<and>
                (\<forall>i<length T.
                    outcome (ps ! i) =
                      (case gamedig w (t1 @ map Gamedig (take i T)) (T ! i) of
                         Inl e \<Rightarrow> Inl e
                       | Inr result \<Rightarrow> new_ArkServerInfo result) \<and>
                    answer i = (case outcome (ps ! i) of Inl e \<Rightarrow> None | Inr info \<Rightarrow> Some info)) \<and>
                Promise_all (map catch_null ps) = Inr (map settled_value ps)) \<and>
            getServerList w serverIPs ports t =
              (Inr (map Obj (List.map_filter answer [0..<length T])), t1 @ map Gamedig T) \<and>
            (\<forall>info. info \<in> set (List.map_filter answer [0..<length T]) \<longleftrightarrow>
                (\<exists>i<length T. answer i = Some info)) \<and>
            length (List.map_filter answer [0..<length T]) =
              length (filter (\<lambda>i. answer i \<noteq> None) [0..<length T]) \<and>
            ((\<forall>i<length T. answer i = None) \<longrightarrow>
               getServerList w serverIPs ports t = (Inr [], t1 @ map Gamedig T))"
proof -
  define T where "T = targets ips (usePorts ports)"
  define answer where "answer = (\<lambda>i. record_of w (t1 @ map Gamedig (take i T)) (T ! i))"
  define ps where "ps = fst (dispatch w T t1)"
  have ps: "getServerPromises w serverIPs ports t = (Inr ps, t1 @ map Gamedig T)"
    unfolding ps_def T_def by (rule getServerPromises_ips [OF assms])
  have len: "length ps = length T"
    by (simp add: ps_def length_dispatch)
  have nth: "outcome (ps ! i) =
        (case gamedig w (t1 @ map Gamedig (take i T)) (T ! i) of
           Inl e \<Rightarrow> Inl e | Inr result \<Rightarrow> new_ArkServerInfo result) \<and>
      answer i = (case outcome (ps ! i) of Inl e \<Rightarrow> None | Inr info \<Rightarrow> Some info)"
    if "i < length T" for i
    using that by (simp add: ps_def answer_def dispatch_nth outcome_query_promise record_of_outcome)
  have res: "getServerList w serverIPs ports t =
      (Inr (map Obj (List.map_filter answer [0..<length T])), t1 @ map Gamedig T)"
    unfolding answer_def T_def
    by (simp add: getServerList_ips [OF assms] collect_nth)
  have mem: "info \<in> set (List.map_filter answer [0..<length T]) \<longleftrightarrow>
      (\<exists>i<length T. answer i = Some info)" for info
    by (auto simp: set_map_filter)
  have cnt: "length (List.map_filter answer [0..<length T]) =
      length (filter (\<lambda>i. answer i \<noteq> None) [0..<length T])"
    by (simp add: map_filter_def)
  have none: "getServerList w serverIPs ports t = (Inr [], t1 @ map Gamedig T)"
    if "\<forall>i<length T. answer i = None"
  proof -
    have "List.map_filter answer [0..<length T] = []"
      by (rule map_filter_all_None) (use that in simp)
    then show ?thesis by (simp add: res)
  qed
  have pall: "Promise_all (map catch_null ps) = Inr (map settled_value ps)"
    by (rule Promise_all_catch_null)
  from ps len nth pall res mem cnt none show ?thesis
    unfolding Let_def answer_def T_def by blast
qed


text \<open>
  In the example fleet: the default call, eight targets of which three answer; four
  targets of which two answer; two targets that both time out.
\<close>

theorem fan_out_resilience_witness:
  "getServerList fleet None None [] =
     (Inr [Obj (info_of ''Srv-B''), Obj (info_of ''Srv-A''), Obj (info_of ''Srv-C'')],
      HttpGet ''http://arkdedicated.com/officialservers.ini'' #
      map Gamedig (targets [''1.2.3.4'', ''5.6.7.8''] PORT_LIST)) \<and>
   getServerList fleet (Some [''1.2.3.4'', ''5.6.7.8'']) (Some [27015, 27019]) [] =
     (Inr [Obj (info_of ''Srv-B''), Obj (info_of ''Srv-A'')],
      [Gamedig (queryForHost ''1.2.3.4'' 27015), Gamedig (queryForHost ''1.2.3.4'' 27019),
       Gamedig (queryForHost ''5.6.7.8'' 27015), Gamedig (queryForHost ''5.6.7.8'' 27019)]) \<and>
   getServerList fleet (Some [''1.2.3.4'', ''5.6.7.8'']) (Some [27017]) [] =
     (Inr [],
      [Gamedig (queryForHost ''1.2.3.4'' 27017), Gamedig (queryForHost ''5.6.7.8'' 27017)])"
proof -
  let ?ips = "[''1.2.3.4'', ''5.6.7.8'']"
  have ne: "?ips \<noteq> []" by simp
  have fetched: "useServerIPs fleet None [] =
      (Inr ?ips, [HttpGet ''http://arkdedicated.com/officialservers.ini''])"
    by (simp add: useServerIPs_def fetchUri_def fleet_def BASE_URI_def SERVER_LIST_URI_def
        await_def first_token_def is_space_def)
  have given: "useServerIPs fleet (Some ?ips) [] = (Inr ?ips, [])"
    by (simp add: useServerIPs_def)
  have rec: "record_of fleet t' query =
     (if q_host query = ''1.2.3.4'' \<and> q_port query = 27015 then Some (info_of ''Srv-B'')
      else if q_host query = ''5.6.7.8'' \<and> q_port query = 27019 then Some (info_of ''Srv-A'')
      else if q_host query = ''5.6.7.8'' \<and> q_port query = 27021 then Some (info_of ''Srv-C'')
      else None)" for t' query
    by (simp add: record_of_def fleet_def srv_A srv_B srv_C)
  have a: "getServerList fleet None None [] =
     (Inr [Obj (info_of ''Srv-B''), Obj (info_of ''Srv-A''), Obj (info_of ''Srv-C'')],
      HttpGet ''http://arkdedicated.com/officialservers.ini'' #
      map Gamedig (targets ?ips PORT_LIST))"
    using fan_out_resilience [OF fetched ne, of None]
    unfolding Let_def usePorts_def option.case
    by (simp add: rec targets_def PORT_LIST_def queryForHost_def upt_rec List.map_filter_simps)
  have b: "getServerList fleet (Some ?ips) (Some [27015, 27019]) [] =
     (Inr [Obj (info_of ''Srv-B''), Obj (info_of ''Srv-A'')],
      [Gamedig (queryForHost ''1.2.3.4'' 27015), Gamedig (queryForHost ''1.2.3.4'' 27019),
       Gamedig (queryForHost ''5.6.7.8'' 27015), Gamedig (queryForHost ''5.6.7.8'' 27019)])"
    using fan_out_resilience [OF given ne, of "Some [27015, 27019]"]
    unfolding Let_def usePorts_def option.case
    by (simp add: rec targets_def queryForHost_def upt_rec List.map_filter_simps)
  have all_fail: "\<forall>i<length (targets ?ips [27017]).
      record_of fleet ([] @ map Gamedig (take i (targets ?ips [27017]))) (targets ?ips [27017] ! i) = None"
    by (simp add: rec targets_def queryForHost_def nth_Cons' less_Suc_eq)
  have c: "getServerList fleet (Some ?ips) (Some [27017]) [] =
     (Inr [], [Gamedig (queryForHost ''1.2.3.4'' 27017), Gamedig (queryForHost ''5.6.7.8'' 27017)])"
  proof -
    from fan_out_resilience [OF given ne, of "Some [27017]"] all_fail
    have "getServerList fleet (Some ?ips) (Some [27017]) [] =
        (Inr [], [] @ map Gamedig (targets ?ips [27017]))"
      unfolding Let_def usePorts_def option.case by blast
    then show ?thesis by (simp add: targets_def)
  qed
  from a b c show ?thesis by blast
qed


text \<open>
  C10 (result order). The settling times of the queries have no influence on the result
  of \<open>getServerList\<close>; when the target list can be built (the IP list is not empty), the
  records returned are those of the targets that succeed, in the order in which the
  targets were built and dispatched: IP-major over the Cartesian product, the ports in
  list order. The target of index \<open>i\<close> is queried after the \<open>i\<close> targets before it.
\<close>

theorem result_order_is_dispatch_order:
  assumes "useServerIPs w serverIPs t = (Inr ips, t1)" and "ips \<noteq> []"
  shows "getServerList (w\<lparr>settleTime := d\<rparr>) serverIPs ports t = getServerList w serverIPs ports t \<and>
         (let T = targets ips (usePorts ports) in
          getServerList w serverIPs ports t =
            (Inr (map Obj (List.map_filter
                    (\<lambda>i. record_of w (t1 @ map Gamedig (take i T)) (T ! i)) [0..<length T])),
             t1 @ map Gamedig T))"
  by (simp add: getServerList_settleTime getServerList_ips [OF assms] collect_nth Let_def)


text \<open>
  In the example fleet the four queries of one host settle in the reverse of their
  dispatch order; the records still come in dispatch order, as they do when all queries
  settle at once.
\<close>

theorem result_order_is_dispatch_order_witness:
  "settle_order (fst (dispatch fleet (targets [''5.6.7.8''] PORT_LIST) [])) = [3, 2, 1, 0] \<and>
   getServerList fleet (Some [''5.6.7.8'']) None [] =
     (Inr [Obj (info_of ''Srv-A''), Obj (info_of ''Srv-C'')],
      map Gamedig (targets [''5.6.7.8''] PORT_LIST)) \<and>
   getServerList (fleet\<lparr>settleTime := \<lambda>t query. 0\<rparr>) (Some [''5.6.7.8'']) None [] =
     (Inr [Obj (info_of ''Srv-A''), Obj (info_of ''Srv-C'')],
      map Gamedig (targets [''5.6.7.8''] PORT_LIST))"
proof -
  have u: "useServerIPs fleet (Some [''5.6.7.8'']) [] = (Inr [''5.6.7.8''], [])"
    by (simp add: useServerIPs_def)
  have ne: "[''5.6.7.8''] \<noteq> []" by simp
  have order: "settle_order (fst (dispatch fleet (targets [''5.6.7.8''] PORT_LIST) [])) = [3, 2, 1, 0]"
    by (simp add: settle_order_def targets_def PORT_LIST_def queryForHost_def then_p_def
        gamedigQuery_def fleet_def upt_rec)
  have ev: "List.map_filter
         (\<lambda>i. record_of fleet ([] @ map Gamedig (take i (targets [''5.6.7.8''] PORT_LIST)))
                (targets [''5.6.7.8''] PORT_LIST ! i))
         [0..<length (targets [''5.6.7.8''] PORT_LIST)] = [info_of ''Srv-A'', info_of ''Srv-C'']"
    by (simp add: targets_def PORT_LIST_def queryForHost_def record_of_def fleet_def upt_rec
        List.map_filter_simps srv_A srv_C)
  from result_order_is_dispatch_order [OF u ne, of "\<lambda>t query. 0" None]
  show ?thesis
    unfolding Let_def usePorts_def option.case ev using order by simp
qed


text \<open>
  C8 (target construction). The default port list has the four ports, but for an
  explicit empty IP list no target set is built at all: \<^verbatim>\<open>reduce\<close> has no initial
  value and throws a \<^verbatim>\<open>TypeError\<close>, so the promise of \<open>getServerPromises\<close> rejects
  before any query is dispatched.
\<close>

theorem getServerPromises_empty_ip_list:
  "getServerPromises w (Some []) ports t = (Inl TypeError, t) \<and>
   usePorts None = [27015, 27017, 27019, 27021]"
  by (simp add: getServerPromises_def useServerIPs_def await_def usePorts_def PORT_LIST_def)

text \<open>
  C7 (error propagation). An explicit empty IP list makes \<open>getServerList\<close> reject with
  the \<^verbatim>\<open>TypeError\<close> of \<open>getServerPromises\<close>, although no server-list fetch is
  involved.
\<close>

theorem getServerList_empty_ip_list_rejects:
  "getServerList w (Some []) ports t = (Inl TypeError, t)"
  by (simp add: getServerList_def getServerPromises_def useServerIPs_def await_def)


section \<open>The resolver as a staged state machine\<close>

lemma filter_name_Obj:
  "filter_name serverName (map Obj infos) =
     Inr (map Obj (filter (\<lambda>info. name info = Some serverName) infos))"
  by (induction infos) simp_all

lemma round_successes:
  "round w serverName serverIPs ports t =
     await (getServerPromises w serverIPs ports t)
       (\<lambda>ps t1. (Inr (map Obj (filter (\<lambda>info. name info = Some serverName) (successes ps))), t1))"
  by (simp add: round_def getServerList_successes await_def filter_name_Obj
      split: prod.splits sum.splits)

lemma host_arg_truthy: "truthy_host (Some h) \<Longrightarrow> host_arg (Some h) = Some [h]"
  by (simp add: truthy_host_def host_arg_def)

lemma port_arg_truthy: "truthy_port (Some p) \<Longrightarrow> port_arg (Some p) = Some [p]"
  by (simp add: truthy_port_def port_arg_def)

lemma await_Inl: "await (Inl e, t) k = (Inl e, t)"
  by (simp add: await_def)

lemma await_Inr: "await (Inr x, t) k = k x t"
  by (simp add: await_def)

lemma await_cong_fun: "(\<And>x t. f x t = g x t) \<Longrightarrow> await m f = await m g"
  by (simp add: await_def split: prod.splits sum.splits)

lemma await_assoc: "await (await m f) g = await m (\<lambda>x t. await (f x t) g)"
  by (simp add: await_def split: prod.splits sum.splits)

lemma last_stage:
  "await (if rl = [] \<and> c then round w serverName None None t else (Inr rl, t))
         (\<lambda>resultList t4. (Inr (case resultList of [] \<Rightarrow> Null | info # _ \<Rightarrow> info), t4)) =
   (case rl of
      [] \<Rightarrow> resolve w serverName (if c then [full_scan_stage] else []) t
    | info # _ \<Rightarrow> (Inr info, t))"
proof (cases rl)
  case Nil
  show ?thesis
  proof (cases c)
    case True
    have "await (round w serverName None None t)
            (\<lambda>resultList t4. (Inr (case resultList of [] \<Rightarrow> Null | info # _ \<Rightarrow> info), t4)) =
          await (round w serverName None None t)
            (\<lambda>found t1. case found of [] \<Rightarrow> resolve w serverName [] t1 | info # _ \<Rightarrow> (Inr info, t1))"
      by (rule await_cong_fun) (simp split: list.splits)
    with Nil True show ?thesis
      by (simp add: full_scan_stage_def)
  next
    case False
    with Nil show ?thesis by (simp add: await_Inr)
  qed
next
  case (Cons info rest)
  then show ?thesis by (simp add: await_Inr)
qed

lemma middle_stages:
  "await (await (round w serverName a1 b1 t1)
            (\<lambda>resultList2 t2. if resultList2 = [] then round w serverName a2 b2 t2
                               else (Inr resultList2, t2)))
         (\<lambda>rl t3. case rl of [] \<Rightarrow> resolve w serverName later t3 | info # _ \<Rightarrow> (Inr info, t3)) =
   resolve w serverName ((a1, b1) # (a2, b2) # later) t1"
proof -
  have "await (if rl2 = [] then round w serverName a2 b2 t2 else (Inr rl2, t2))
          (\<lambda>rl t3. case rl of [] \<Rightarrow> resolve w serverName later t3 | info # _ \<Rightarrow> (Inr info, t3)) =
        (case rl2 of [] \<Rightarrow> resolve w serverName ((a2, b2) # later) t2 | info # _ \<Rightarrow> (Inr info, t2))"
    for rl2 t2
    by (cases rl2) (simp_all add: await_Inr)
  then show ?thesis
    by (simp add: await_assoc)
qed

lemma getServerInfo_resolve:
  "getServerInfo w serverName opts t = resolve w serverName (stage_plan opts) t"
proof -
  let ?fb = "case fallback opts of None \<Rightarrow> True | Some b \<Rightarrow> b"
  let ?c = "?fb \<and> (truthy_host (host opts) \<or> truthy_port (port opts))"
  let ?mid = "\<lambda>resultList1 t1. case (host opts, port opts) of
               (Some h, Some p) \<Rightarrow>
                 if resultList1 = [] \<and> ?fb \<and> truthy_host (Some h) \<and> truthy_port (Some p) then
                   await (round w serverName (Some [h]) None t1)
                     (\<lambda>resultList2 t2.
                        if resultList2 = [] then round w serverName None (Some [p]) t2
                        else (Inr resultList2, t2))
                 else (Inr resultList1, t1)
             | _ \<Rightarrow> (Inr resultList1, t1)"
  let ?K = "\<lambda>rl t3. case rl of [] \<Rightarrow> resolve w serverName (if ?c then [full_scan_stage] else []) t3
                          | info # _ \<Rightarrow> (Inr info, t3)"
  have lhs: "getServerInfo w serverName opts t =
      await (round w serverName (host_arg (host opts)) (port_arg (port opts)) t)
        (\<lambda>resultList1 t1. await (?mid resultList1 t1) ?K)"
    by (simp only: getServerInfo_def Let_def last_stage)
  have step: "await (?mid rl1 t1) ?K =
      (case rl1 of [] \<Rightarrow> resolve w serverName (tl (stage_plan opts)) t1 | info # _ \<Rightarrow> (Inr info, t1))"
    for rl1 t1
  proof (cases "?fb \<and> truthy_host (host opts) \<and> truthy_port (port opts)")
    case True
    then obtain h p where hp: "host opts = Some h" "port opts = Some p"
      by (auto simp: truthy_host_def truthy_port_def split: option.splits)
    show ?thesis
    proof (cases rl1)
      case Nil
      with True hp show ?thesis
        by (simp add: middle_stages stage_plan_def use_fallback_def host_only_stage_def
            port_only_stage_def host_arg_truthy port_arg_truthy)
    next
      case (Cons info rest)
      with True hp show ?thesis by (simp add: await_Inr)
    qed
  next
    case False
    then have "?mid rl1 t1 = (Inr rl1, t1)"
      by (auto split: option.splits)
    with False show ?thesis
      by (auto simp add: await_Inr stage_plan_def use_fallback_def split: list.splits)
  qed
  define rest where "rest = tl (stage_plan opts)"
  have plan: "stage_plan opts = (host_arg (host opts), port_arg (port opts)) # rest"
    by (simp add: rest_def stage_plan_def hinted_stage_def)
  show ?thesis
    unfolding lhs step plan by (simp cong: list.case_cong)
qed


lemma round_ips:
  assumes "useServerIPs w serverIPs t = (Inr ips, t1)" and "ips \<noteq> []"
  shows "round w serverName serverIPs ports t =
           (Inr (map Obj (filter (\<lambda>info. name info = Some serverName)
                   (collect w (targets ips (usePorts ports)) t1))),
            t1 @ map Gamedig (targets ips (usePorts ports)))"
  by (simp add: round_def getServerList_ips [OF assms] await_Inr filter_name_Obj)

lemma round_found:
  "round w serverName serverIPs ports t = (Inr found, t1) \<Longrightarrow>
     \<exists>infos. getServerList w serverIPs ports t = (Inr (map Obj infos), t1) \<and>
             found = map Obj (filter (\<lambda>info. name info = Some serverName) infos)"
  by (auto simp: round_def getServerList_successes await_def filter_name_Obj
      split: prod.splits sum.splits)

lemma snd_await_keep: "snd (await m (\<lambda>x t. (f x, t))) = snd m"
  by (simp add: await_def split: prod.splits sum.splits)

lemma snd_round: "snd (round w serverName serverIPs ports t) = snd (getServerList w serverIPs ports t)"
  by (simp add: round_def snd_await_keep)

lemma split_lines_nonempty: "split_lines cur s \<noteq> []"
  by (induction cur s rule: split_lines.induct) simp_all

lemma useServerIPs_None:
  "useServerIPs w None t =
     (case httpGet w t (BASE_URI @ SERVER_LIST_URI) of
        Inl e \<Rightarrow> (Inl e, t @ [HttpGet (BASE_URI @ SERVER_LIST_URI)])
      | Inr serverList \<Rightarrow>
          (Inr (map first_token (split_lines [] serverList)), t @ [HttpGet (BASE_URI @ SERVER_LIST_URI)]))"
  by (simp add: useServerIPs_def fetchUri_def await_def split: sum.splits)

lemma getServerList_None_trace:
  "\<exists>qs. snd (getServerList w None ports t) = t @ HttpGet (BASE_URI @ SERVER_LIST_URI) # map Gamedig qs"
proof (cases "httpGet w t (BASE_URI @ SERVER_LIST_URI)")
  case (Inl e)
  then have "snd (getServerList w None ports t) = t @ HttpGet (BASE_URI @ SERVER_LIST_URI) # map Gamedig []"
    by (simp add: getServerList_def getServerPromises_def useServerIPs_None await_Inl)
  then show ?thesis by blast
next
  case (Inr serverList)
  let ?ips = "map first_token (split_lines [] serverList)"
  have "useServerIPs w None t = (Inr ?ips, t @ [HttpGet (BASE_URI @ SERVER_LIST_URI)])"
    by (simp add: useServerIPs_None Inr)
  moreover have "?ips \<noteq> []" by (simp add: split_lines_nonempty)
  ultimately have "snd (getServerList w None ports t) =
      t @ HttpGet (BASE_URI @ SERVER_LIST_URI) # map Gamedig (targets ?ips (usePorts ports))"
    by (simp add: getServerList_ips)
  then show ?thesis by blast
qed

lemma name_info_of: "name (info_of n) = Some n"
  by (simp add: info_of_def)

lemma filter_is_fetch_map_Gamedig: "filter is_fetch (map Gamedig qs) = []"
  by (induction qs) (simp_all add: is_fetch_def)

lemma collect_no_match:
  "(\<And>q t' i. q \<in> set qs \<Longrightarrow> record_of w t' q = Some i \<Longrightarrow> name i \<noteq> Some serverName) \<Longrightarrow>
     filter (\<lambda>info. name info = Some serverName) (collect w qs t) = []"
proof (induction qs arbitrary: t)
  case Nil
  then show ?case by simp
next
  case (Cons q qs)
  have rest: "filter (\<lambda>info. name info = Some serverName) (collect w qs (t @ [Gamedig q])) = []"
    by (rule Cons.IH) (use Cons.prems in auto)
  show ?case
  proof (cases "record_of w t q")
    case None
    with rest show ?thesis by simp
  next
    case (Some i)
    then have "name i \<noteq> Some serverName" using Cons.prems by auto
    with Some rest show ?thesis by simp
  qed
qed

lemma collect_match:
  "q \<in> set qs \<Longrightarrow> (\<And>t'. \<exists>i. record_of w t' q = Some i \<and> name i = Some serverName) \<Longrightarrow>
     filter (\<lambda>info. name info = Some serverName) (collect w qs t) \<noteq> []"
proof (induction qs arbitrary: t)
  case Nil
  then show ?case by simp
next
  case (Cons q' qs)
  show ?case
  proof (cases "q = q'")
    case True
    then obtain i where "record_of w t q' = Some i" "name i = Some serverName"
      using Cons.prems(2) by blast
    then show ?thesis by simp
  next
    case False
    then have "q \<in> set qs" using Cons.prems(1) by simp
    then have "filter (\<lambda>info. name info = Some serverName) (collect w qs (t @ [Gamedig q'])) \<noteq> []"
      using Cons.prems(2) by (rule Cons.IH)
    then show ?thesis by (simp split: option.splits)
  qed
qed

lemma targets_host_port:
  "q \<in> set (targets ips ps) \<Longrightarrow> q_host q \<in> set ips \<and> q_port q \<in> set ps"
  by (auto simp: targets_def queryForHost_def)

lemma resolve_skip:
  "round w serverName serverIPs ports t = (Inr [], t1) \<Longrightarrow>
     resolve w serverName ((serverIPs, ports) # later) t = resolve w serverName later t1"
  by (simp add: await_Inr)

lemma resolve_hit:
  "round w serverName serverIPs ports t = (Inr (info # others), t1) \<Longrightarrow>
     resolve w serverName ((serverIPs, ports) # later) t = (Inr info, t1)"
  by (simp add: await_Inr)

lemma fleet_ips:
  "useServerIPs fleet None t =
     (Inr [''1.2.3.4'', ''5.6.7.8''], t @ [HttpGet ''http://arkdedicated.com/officialservers.ini''])"
  by (simp add: useServerIPs_None fleet_def BASE_URI_def SERVER_LIST_URI_def
      first_token_def is_space_def)

lemma fleet_record_of:
  "record_of fleet t query =
     (if q_host query = ''1.2.3.4'' \<and> q_port query = 27015 then Some (info_of ''Srv-B'')
      else if q_host query = ''5.6.7.8'' \<and> q_port query = 27019 then Some (info_of ''Srv-A'')
      else if q_host query = ''5.6.7.8'' \<and> q_port query = 27021 then Some (info_of ''Srv-C'')
      else None)"
  by (simp add: record_of_def fleet_def srv_A srv_B srv_C)

lemma fleet_round_explicit:
  "ips \<noteq> [] \<Longrightarrow> round fleet serverName (Some ips) ports t =
     (Inr (map Obj (filter (\<lambda>info. name info = Some serverName)
             (collect fleet (targets ips (usePorts ports)) t))),
      t @ map Gamedig (targets ips (usePorts ports)))"
  by (rule round_ips) (simp_all add: useServerIPs_def)

lemma fleet_round_fetched:
  "round fleet serverName None ports t =
     (Inr (map Obj (filter (\<lambda>info. name info = Some serverName)
             (collect fleet (targets [''1.2.3.4'', ''5.6.7.8''] (usePorts ports))
                (t @ [HttpGet ''http://arkdedicated.com/officialservers.ini''])))),
      (t @ [HttpGet ''http://arkdedicated.com/officialservers.ini'']) @
      map Gamedig (targets [''1.2.3.4'', ''5.6.7.8''] (usePorts ports)))"
  by (rule round_ips [OF fleet_ips]) simp


section \<open>Claims about the resolver\<close>

text \<open>
  C5 (staging, matching, short-circuit). \<open>getServerInfo\<close> is the staged state machine
  run on the stage plan of the request. The plan lists the stages in the fixed order
  hinted, host-only, port-only, full scan: all four with fallback and both hints, the
  hinted stage and the full scan with fallback and one hint, the hinted stage alone
  otherwise. A stage keeps exactly the records of its query round whose
  \<open>name\<close> equals the requested name. A stage with no match hands over to the next one;
  a stage with a match returns its first match with the trace of that stage, whatever
  stages come later: no later stage issues a query.
\<close>

theorem resolver_staging:
  "getServerInfo w serverName opts t = resolve w serverName (stage_plan opts) t \<and>
   stage_plan opts =
     (if use_fallback opts \<and> truthy_host (host opts) \<and> truthy_port (port opts)
      then [hinted_stage opts, host_only_stage opts, port_only_stage opts, full_scan_stage]
      else if use_fallback opts \<and> (truthy_host (host opts) \<or> truthy_port (port opts))
      then [hinted_stage opts, full_scan_stage]
      else [hinted_stage opts]) \<and>
   resolve w serverName [] t = (Inr Null, t) \<and>
   (round w serverName serverIPs ports t = (Inr [], t1) \<longrightarrow>
      resolve w serverName ((serverIPs, ports) # later) t = resolve w serverName later t1) \<and>
   (round w serverName serverIPs ports t = (Inr (info # others), t1) \<longrightarrow>
      resolve w serverName ((serverIPs, ports) # later) t = (Inr info, t1)) \<and>
   (round w serverName serverIPs ports t = (Inr found, t1) \<longrightarrow>
      (\<exists>infos. getServerList w serverIPs ports t = (Inr (map Obj infos), t1) \<and>
         found = map Obj (filter (\<lambda>info. name info = Some serverName) infos)))"
proof -
  have "stage_plan opts =
     (if use_fallback opts \<and> truthy_host (host opts) \<and> truthy_port (port opts)
      then [hinted_stage opts, host_only_stage opts, port_only_stage opts, full_scan_stage]
      else if use_fallback opts \<and> (truthy_host (host opts) \<or> truthy_port (port opts))
      then [hinted_stage opts, full_scan_stage]
      else [hinted_stage opts])"
    by (simp add: stage_plan_def)
  moreover have "resolve w serverName ((serverIPs, ports) # later) t = resolve w serverName later t1"
    if "round w serverName serverIPs ports t = (Inr [], t1)"
    using that by (rule resolve_skip)
  moreover have "resolve w serverName ((serverIPs, ports) # later) t = (Inr info, t1)"
    if "round w serverName serverIPs ports t = (Inr (info # others), t1)"
    using that by (rule resolve_hit)
  moreover have "\<exists>infos. getServerList w serverIPs ports t = (Inr (map Obj infos), t1) \<and>
         found = map Obj (filter (\<lambda>info. name info = Some serverName) infos)"
    if "round w serverName serverIPs ports t = (Inr found, t1)"
    using that by (rule round_found)
  ultimately show ?thesis
    using getServerInfo_resolve [of w serverName opts t] by simp
qed


text \<open>
  In the example fleet the hinted stage finds \<open>Srv-B\<close>: one query is issued, although
  the plan has four stages.
\<close>

theorem resolver_staging_witness:
  "stage_plan \<lparr>host = Some ''1.2.3.4'', port = Some 27015, fallback = None\<rparr> =
     [(Some [''1.2.3.4''], Some [27015]), (Some [''1.2.3.4''], None),
      (None, Some [27015]), (None, None)] \<and>
   getServerInfo fleet ''Srv-B'' \<lparr>host = Some ''1.2.3.4'', port = Some 27015, fallback = None\<rparr> [] =
     (Inr (Obj (info_of ''Srv-B'')), [Gamedig (queryForHost ''1.2.3.4'' 27015)])"
proof -
  let ?opts = "\<lparr>host = Some ''1.2.3.4'', port = Some 27015, fallback = None\<rparr>"
  have plan: "stage_plan ?opts =
     [(Some [''1.2.3.4''], Some [27015]), (Some [''1.2.3.4''], None),
      (None, Some [27015]), (None, None)]"
    by (simp add: stage_plan_def hinted_stage_def host_only_stage_def port_only_stage_def
        full_scan_stage_def use_fallback_def truthy_host_def truthy_port_def host_arg_def port_arg_def)
  have r1: "round fleet ''Srv-B'' (Some [''1.2.3.4'']) (Some [27015]) [] =
      (Inr [Obj (info_of ''Srv-B'')], [Gamedig (queryForHost ''1.2.3.4'' 27015)])"
    using round_ips [of fleet "Some [''1.2.3.4'']" "[]" "[''1.2.3.4'']" "[]" "''Srv-B''" "Some [27015]"]
    by (simp add: useServerIPs_def usePorts_def targets_def record_of_def fleet_def queryForHost_def
        srv_B name_info_of)
  from resolver_staging [where w = fleet and serverName = "''Srv-B''" and opts = ?opts and t = "[]"
      and serverIPs = "Some [''1.2.3.4'']" and ports = "Some [27015]"
      and ?t1.0 = "[Gamedig (queryForHost ''1.2.3.4'' 27015)]"
      and later = "[(Some [''1.2.3.4''], None), (None, Some [27015]), (None, None)]"
      and info = "Obj (info_of ''Srv-B'')" and others = "[]"]
  show ?thesis
    unfolding plan using r1 plan by simp
qed


text \<open>
  C6 (no-hint shortcut). Without a host hint and without a port hint, whatever the
  fallback flag, the plan is the single stage over the default IP list and the default
  port list; the effects of \<open>getServerInfo\<close> are exactly those of one \<open>getServerList\<close>
  with both defaults, and the trace gains exactly one server-list fetch.
\<close>

theorem no_hint_single_round:
  "stage_plan \<lparr>host = None, port = None, fallback = fb\<rparr> = [full_scan_stage] \<and>
   getServerInfo w serverName \<lparr>host = None, port = None, fallback = fb\<rparr> t =
     await (round w serverName None None t)
       (\<lambda>found t1. (Inr (case found of [] \<Rightarrow> Null | info # _ \<Rightarrow> info), t1)) \<and>
   snd (getServerInfo w serverName \<lparr>host = None, port = None, fallback = fb\<rparr> t) =
     snd (getServerList w None None t) \<and>
   length (filter is_fetch (snd (getServerInfo w serverName \<lparr>host = None, port = None, fallback = fb\<rparr> t))) =
     Suc (length (filter is_fetch t))"
proof -
  let ?opts = "\<lparr>host = None, port = None, fallback = fb\<rparr>"
  have plan: "stage_plan ?opts = [full_scan_stage]"
    by (simp add: stage_plan_def hinted_stage_def full_scan_stage_def host_arg_def port_arg_def
        truthy_host_def truthy_port_def)
  have eq: "getServerInfo w serverName ?opts t =
     await (round w serverName None None t)
       (\<lambda>found t1. (Inr (case found of [] \<Rightarrow> Null | info # _ \<Rightarrow> info), t1))"
    unfolding getServerInfo_resolve plan full_scan_stage_def resolve.simps
    by (rule await_cong_fun) (simp split: list.splits)
  have tr: "snd (getServerInfo w serverName ?opts t) = snd (getServerList w None None t)"
    unfolding eq by (simp add: snd_await_keep snd_round)
  obtain qs where "snd (getServerList w None None t) =
      t @ HttpGet (BASE_URI @ SERVER_LIST_URI) # map Gamedig qs"
    using getServerList_None_trace by blast
  with tr have "length (filter is_fetch (snd (getServerInfo w serverName ?opts t))) =
      Suc (length (filter is_fetch t))"
    by (simp add: filter_is_fetch_map_Gamedig is_fetch_def)
  with plan eq tr show ?thesis by simp
qed


theorem no_hint_single_round_witness:
  "getServerInfo fleet ''Srv-C'' \<lparr>host = None, port = None, fallback = Some True\<rparr> [] =
     (Inr (Obj (info_of ''Srv-C'')),
      HttpGet ''http://arkdedicated.com/officialservers.ini'' #
      map Gamedig (targets [''1.2.3.4'', ''5.6.7.8''] PORT_LIST)) \<and>
   length (filter is_fetch (snd (getServerInfo fleet ''Srv-C''
      \<lparr>host = None, port = None, fallback = Some True\<rparr> []))) = 1"
proof -
  have ips: "useServerIPs fleet None [] =
      (Inr [''1.2.3.4'', ''5.6.7.8''], [HttpGet ''http://arkdedicated.com/officialservers.ini''])"
    by (simp add: useServerIPs_None fleet_def BASE_URI_def SERVER_LIST_URI_def
        first_token_def is_space_def)
  have r: "round fleet ''Srv-C'' None None [] =
     (Inr [Obj (info_of ''Srv-C'')],
      HttpGet ''http://arkdedicated.com/officialservers.ini'' #
      map Gamedig (targets [''1.2.3.4'', ''5.6.7.8''] PORT_LIST))"
    unfolding round_ips [OF ips, simplified]
    by (simp add: usePorts_def PORT_LIST_def targets_def record_of_def fleet_def queryForHost_def
        srv_A srv_B srv_C name_info_of)
  note inst = no_hint_single_round [of "Some True" fleet "''Srv-C''" "[]"]
  from inst have "getServerInfo fleet ''Srv-C'' \<lparr>host = None, port = None, fallback = Some True\<rparr> [] =
     (Inr (Obj (info_of ''Srv-C'')),
      HttpGet ''http://arkdedicated.com/officialservers.ini'' #
      map Gamedig (targets [''1.2.3.4'', ''5.6.7.8''] PORT_LIST))"
    unfolding r by (simp add: await_Inr)
  moreover from inst have "length (filter is_fetch (snd (getServerInfo fleet ''Srv-C''
      \<lparr>host = None, port = None, fallback = Some True\<rparr> []))) = Suc (length (filter is_fetch []))"
    by blast
  then have "length (filter is_fetch (snd (getServerInfo fleet ''Srv-C''
      \<lparr>host = None, port = None, fallback = Some True\<rparr> []))) = 1"
    by simp
  ultimately show ?thesis by blast
qed


text \<open>
  C9 (falsy hints). The empty string as host hint and the number 0 as port hint behave
  as hints that were not given: the same arguments of the first round, the same stage
  conditions, the same plan, and the same result and trace of \<open>getServerInfo\<close>.
\<close>

theorem falsy_hints_are_absent:
  "host_arg (Some []) = host_arg None \<and>
   port_arg (Some 0) = port_arg None \<and>
   truthy_host (Some []) = truthy_host None \<and>
   truthy_port (Some 0) = truthy_port None \<and>
   stage_plan (opts\<lparr>host := Some []\<rparr>) = stage_plan (opts\<lparr>host := None\<rparr>) \<and>
   stage_plan (opts\<lparr>port := Some 0\<rparr>) = stage_plan (opts\<lparr>port := None\<rparr>) \<and>
   getServerInfo w serverName (opts\<lparr>host := Some []\<rparr>) t =
     getServerInfo w serverName (opts\<lparr>host := None\<rparr>) t \<and>
   getServerInfo w serverName (opts\<lparr>port := Some 0\<rparr>) t =
     getServerInfo w serverName (opts\<lparr>port := None\<rparr>) t"
  by (simp add: getServerInfo_def host_arg_def port_arg_def truthy_host_def truthy_port_def
      stage_plan_def hinted_stage_def host_only_stage_def port_only_stage_def use_fallback_def
      split: option.splits)


theorem falsy_hints_are_absent_witness:
  "getServerInfo fleet ''Srv-A'' \<lparr>host = Some [], port = Some 27019, fallback = None\<rparr> [] =
     (Inr (Obj (info_of ''Srv-A'')),
      [HttpGet ''http://arkdedicated.com/officialservers.ini'',
       Gamedig (queryForHost ''1.2.3.4'' 27019), Gamedig (queryForHost ''5.6.7.8'' 27019)]) \<and>
   getServerInfo fleet ''Srv-A'' \<lparr>host = Some ''5.6.7.8'', port = Some 0, fallback = None\<rparr> [] =
     getServerInfo fleet ''Srv-A'' \<lparr>host = Some ''5.6.7.8'', port = None, fallback = None\<rparr> []"
proof -
  have ev: "getServerInfo fleet ''Srv-A'' \<lparr>host = None, port = Some 27019, fallback = None\<rparr> [] =
     (Inr (Obj (info_of ''Srv-A'')),
      [HttpGet ''http://arkdedicated.com/officialservers.ini'',
       Gamedig (queryForHost ''1.2.3.4'' 27019), Gamedig (queryForHost ''5.6.7.8'' 27019)])"
    by (simp add: getServerInfo_resolve stage_plan_def hinted_stage_def host_only_stage_def
        port_only_stage_def full_scan_stage_def use_fallback_def truthy_host_def truthy_port_def
        host_arg_def port_arg_def fleet_round_fetched await_Inr
        usePorts_def targets_def fleet_record_of queryForHost_def name_info_of)
  from falsy_hints_are_absent [of "\<lparr>host = None, port = Some 27019, fallback = None\<rparr>" fleet "''Srv-A''" "[]"]
    falsy_hints_are_absent [of "\<lparr>host = Some ''5.6.7.8'', port = None, fallback = None\<rparr>" fleet "''Srv-A''" "[]"]
  show ?thesis
    unfolding ev [symmetric] by simp
qed


text \<open>
  C2 (fallback completeness). Both hints are given; the server list can be fetched; no
  query against the hinted host and no query against the hinted port ever yields a record
  named \<open>serverName\<close>, while some target of the default full scan always does. Then
  with \<open>fallback = true\<close> (given or by default) the hinted, host-only and port-only
  rounds find nothing, and the result is the first record of that name found by the
  full-scan round; with \<open>fallback = false\<close> the result is \<^verbatim>\<open>null\<close> after the hinted
  round alone. Neither rejects. The traces list the effects issued.
\<close>

theorem fallback_completeness:
  assumes hints: "truthy_host (Some h)" "truthy_port (Some p)"
    and fetch: "\<forall>t'. httpGet w t' (BASE_URI @ SERVER_LIST_URI) = Inr serverList"
    and wrong_host:
      "\<forall>t' q i. q_host q = h \<longrightarrow> record_of w t' q = Some i \<longrightarrow> name i \<noteq> Some serverName"
    and wrong_port:
      "\<forall>t' q i. q_port q = p \<longrightarrow> record_of w t' q = Some i \<longrightarrow> name i \<noteq> Some serverName"
    and live: "live \<in> set (targets (map first_token (split_lines [] serverList)) PORT_LIST)"
      "\<forall>t'. \<exists>i. record_of w t' live = Some i \<and> name i = Some serverName"
  shows "(let ips = map first_token (split_lines [] serverList);
              listUri = BASE_URI @ SERVER_LIST_URI;
              t1 = t @ map Gamedig (targets [h] [p]);
              t2 = t1 @ map Gamedig (targets [h] PORT_LIST);
              t3 = t2 @ HttpGet listUri # map Gamedig (targets ips [p]);
              t4 = t3 @ HttpGet listUri # map Gamedig (targets ips PORT_LIST)
          in (\<exists>info others.
                round w serverName None None t3 = (Inr (Obj info # others), t4) \<and>
                name info = Some serverName \<and>
                getServerInfo w serverName \<lparr>host = Some h, port = Some p, fallback = Some True\<rparr> t =
                  (Inr (Obj info), t4) \<and>
                getServerInfo w serverName \<lparr>host = Some h, port = Some p, fallback = None\<rparr> t =
                  (Inr (Obj info), t4)) \<and>
             getServerInfo w serverName \<lparr>host = Some h, port = Some p, fallback = Some False\<rparr> t =
               (Inr Null, t1))"
proof -
  let ?match = "\<lambda>info. name info = Some serverName"
  let ?ips = "map first_token (split_lines [] serverList)"
  have ips: "useServerIPs w None t' = (Inr ?ips, t' @ [HttpGet (BASE_URI @ SERVER_LIST_URI)])" for t'
    by (simp add: useServerIPs_None fetch)
  have ne: "?ips \<noteq> []" by (simp add: split_lines_nonempty)
  have explicit: "useServerIPs w (Some [h]) t' = (Inr [h], t')" for t'
    by (simp add: useServerIPs_def)
  define t1 where "t1 = t @ map Gamedig (targets [h] [p])"
  define t2 where "t2 = t1 @ map Gamedig (targets [h] PORT_LIST)"
  define t3 where "t3 = t2 @ HttpGet (BASE_URI @ SERVER_LIST_URI) # map Gamedig (targets ?ips [p])"
  define t4 where "t4 = t3 @ HttpGet (BASE_URI @ SERVER_LIST_URI) # map Gamedig (targets ?ips PORT_LIST)"
  have no_h: "filter ?match (collect w (targets [h] ps) t') = []" for ps t'
  proof (rule collect_no_match)
    fix q t'' i
    assume "q \<in> set (targets [h] ps)" and r: "record_of w t'' q = Some i"
    then have "q_host q = h"
      using targets_host_port [of q "[h]" ps] by simp
    with r wrong_host show "name i \<noteq> Some serverName" by blast
  qed
  have no_p: "filter ?match (collect w (targets ips' [p]) t') = []" for ips' t'
  proof (rule collect_no_match)
    fix q t'' i
    assume "q \<in> set (targets ips' [p])" and r: "record_of w t'' q = Some i"
    then have "q_port q = p"
      using targets_host_port [of q ips' "[p]"] by simp
    with r wrong_port show "name i \<noteq> Some serverName" by blast
  qed
  have r1: "round w serverName (Some [h]) (Some [p]) t = (Inr [], t1)"
    unfolding t1_def round_ips [OF explicit, simplified] by (simp add: no_h usePorts_def)
  have r2: "round w serverName (Some [h]) None t1 = (Inr [], t2)"
    unfolding t2_def round_ips [OF explicit, simplified] by (simp add: no_h usePorts_def)
  have r3: "round w serverName None (Some [p]) t2 = (Inr [], t3)"
    unfolding t3_def round_ips [OF ips ne] by (simp add: no_p usePorts_def)
  have "filter ?match (collect w (targets ?ips (usePorts None)) (t3 @ [HttpGet (BASE_URI @ SERVER_LIST_URI)])) \<noteq> []"
    using live by (simp add: collect_match usePorts_def)
  then obtain info rest where found:
    "filter ?match (collect w (targets ?ips (usePorts None)) (t3 @ [HttpGet (BASE_URI @ SERVER_LIST_URI)])) = info # rest"
    by (cases "filter ?match (collect w (targets ?ips (usePorts None)) (t3 @ [HttpGet (BASE_URI @ SERVER_LIST_URI)]))") auto
  then have "info \<in> set (filter ?match (collect w (targets ?ips (usePorts None)) (t3 @ [HttpGet (BASE_URI @ SERVER_LIST_URI)])))"
    by simp
  then have nm: "name info = Some serverName" by simp
  have r4: "round w serverName None None t3 = (Inr (Obj info # map Obj rest), t4)"
    unfolding t4_def round_ips [OF ips ne] found by (simp add: usePorts_def)
  have plan_on: "stage_plan \<lparr>host = Some h, port = Some p, fallback = Some True\<rparr> =
      [(Some [h], Some [p]), (Some [h], None), (None, Some [p]), (None, None)]"
    using hints
    by (simp add: stage_plan_def hinted_stage_def host_only_stage_def port_only_stage_def
        full_scan_stage_def use_fallback_def host_arg_truthy port_arg_truthy)
  have plan_off: "stage_plan \<lparr>host = Some h, port = Some p, fallback = Some False\<rparr> =
      [(Some [h], Some [p])]"
    using hints
    by (simp add: stage_plan_def hinted_stage_def use_fallback_def host_arg_truthy port_arg_truthy)
  have on: "getServerInfo w serverName \<lparr>host = Some h, port = Some p, fallback = Some True\<rparr> t =
      (Inr (Obj info), t4)"
    unfolding getServerInfo_resolve plan_on
    by (simp only: resolve_skip [OF r1] resolve_skip [OF r2] resolve_skip [OF r3] resolve_hit [OF r4])
  have off: "getServerInfo w serverName \<lparr>host = Some h, port = Some p, fallback = Some False\<rparr> t =
      (Inr Null, t1)"
    unfolding getServerInfo_resolve plan_off
    by (simp add: r1 await_Inr)
  have dflt: "getServerInfo w serverName \<lparr>host = Some h, port = Some p, fallback = None\<rparr> t =
      getServerInfo w serverName \<lparr>host = Some h, port = Some p, fallback = Some True\<rparr> t"
    by (simp add: getServerInfo_def)
  from r4 nm on off dflt show ?thesis
    unfolding Let_def t4_def t3_def t2_def t1_def by simp
qed


text \<open>
  In the example fleet \<open>Srv-A\<close> is hinted at \<open>1.2.3.4:27015\<close> and lives at
  \<open>5.6.7.8:27019\<close>.
\<close>

theorem fallback_completeness_witness:
  "(\<exists>info.
      name info = Some ''Srv-A'' \<and>
      getServerInfo fleet ''Srv-A'' \<lparr>host = Some ''1.2.3.4'', port = Some 27015, fallback = Some True\<rparr> [] =
        (Inr (Obj info),
         map Gamedig (targets [''1.2.3.4''] [27015]) @
         map Gamedig (targets [''1.2.3.4''] PORT_LIST) @
         HttpGet ''http://arkdedicated.com/officialservers.ini'' #
         map Gamedig (targets [''1.2.3.4'', ''5.6.7.8''] [27015]) @
         HttpGet ''http://arkdedicated.com/officialservers.ini'' #
         map Gamedig (targets [''1.2.3.4'', ''5.6.7.8''] PORT_LIST))) \<and>
   getServerInfo fleet ''Srv-A'' \<lparr>host = Some ''1.2.3.4'', port = Some 27015, fallback = Some False\<rparr> [] =
     (Inr Null, map Gamedig (targets [''1.2.3.4''] [27015])) \<and>
   fst (getServerInfo fleet ''Srv-A'' \<lparr>host = Some ''1.2.3.4'', port = Some 27015, fallback = Some True\<rparr> []) =
     Inr (Obj (info_of ''Srv-A''))"
proof -
  let ?list = "''1.2.3.4 x'' @ [CHR 0x0D, CHR 0x0A] @ ''5.6.7.8''"
  have h1: "truthy_host (Some ''1.2.3.4'')" by (simp add: truthy_host_def)
  have h2: "truthy_port (Some 27015)" by (simp add: truthy_port_def)
  have h3: "\<forall>t'. httpGet fleet t' (BASE_URI @ SERVER_LIST_URI) = Inr ?list"
    by (simp add: fleet_def)
  have h4: "\<forall>t' q i. q_host q = ''1.2.3.4'' \<longrightarrow> record_of fleet t' q = Some i \<longrightarrow>
      name i \<noteq> Some ''Srv-A''"
    by (auto simp: fleet_record_of name_info_of split: if_splits)
  have h5: "\<forall>t' q i. q_port q = 27015 \<longrightarrow> record_of fleet t' q = Some i \<longrightarrow>
      name i \<noteq> Some ''Srv-A''"
    by (auto simp: fleet_record_of name_info_of split: if_splits)
  have h6: "queryForHost ''5.6.7.8'' 27019 \<in>
      set (targets (map first_token (split_lines [] ?list)) PORT_LIST)"
    by (simp add: targets_def PORT_LIST_def first_token_def is_space_def)
  have h7: "\<forall>t'. \<exists>i. record_of fleet t' (queryForHost ''5.6.7.8'' 27019) = Some i \<and>
      name i = Some ''Srv-A''"
    by (simp add: fleet_record_of queryForHost_def name_info_of)
  have ips: "map first_token (split_lines [] ?list) = [''1.2.3.4'', ''5.6.7.8'']"
    by (simp add: first_token_def is_space_def)
  note inst = fallback_completeness [where w = fleet and h = "''1.2.3.4''" and p = 27015
      and serverName = "''Srv-A''" and serverList = ?list and t = "[]"
      and live = "queryForHost ''5.6.7.8'' 27019", OF h1 h2 h3 h4 h5 h6 h7]
  have "(\<exists>info.
      name info = Some ''Srv-A'' \<and>
      getServerInfo fleet ''Srv-A'' \<lparr>host = Some ''1.2.3.4'', port = Some 27015, fallback = Some True\<rparr> [] =
        (Inr (Obj info),
         map Gamedig (targets [''1.2.3.4''] [27015]) @
         map Gamedig (targets [''1.2.3.4''] PORT_LIST) @
         HttpGet ''http://arkdedicated.com/officialservers.ini'' #
         map Gamedig (targets [''1.2.3.4'', ''5.6.7.8''] [27015]) @
         HttpGet ''http://arkdedicated.com/officialservers.ini'' #
         map Gamedig (targets [''1.2.3.4'', ''5.6.7.8''] PORT_LIST))) \<and>
   getServerInfo fleet ''Srv-A'' \<lparr>host = Some ''1.2.3.4'', port = Some 27015, fallback = Some False\<rparr> [] =
     (Inr Null, map Gamedig (targets [''1.2.3.4''] [27015]))"
    using inst
    unfolding Let_def ips by (simp add: BASE_URI_def SERVER_LIST_URI_def) blast
  moreover have "fst (getServerInfo fleet ''Srv-A''
      \<lparr>host = Some ''1.2.3.4'', port = Some 27015, fallback = Some True\<rparr> []) = Inr (Obj (info_of ''Srv-A''))"
    by (simp add: getServerInfo_resolve stage_plan_def hinted_stage_def host_only_stage_def
        port_only_stage_def full_scan_stage_def use_fallback_def truthy_host_def truthy_port_def
        host_arg_def port_arg_def fleet_round_explicit fleet_round_fetched await_Inr
        usePorts_def PORT_LIST_def targets_def fleet_record_of queryForHost_def name_info_of)
  ultimately show ?thesis by blast
qed


section \<open>Further properties: rejections and targets\<close>

lemma getServerPromises_Inl:
  assumes "getServerPromises w serverIPs ports t = (Inl e, t1)"
  shows "(serverIPs = None \<and> httpGet w t (BASE_URI @ SERVER_LIST_URI) = Inl e \<and>
            t1 = t @ [HttpGet (BASE_URI @ SERVER_LIST_URI)]) \<or>
         (serverIPs = Some [] \<and> e = TypeError \<and> t1 = t)"
proof (cases serverIPs)
  case None
  show ?thesis
  proof (cases "httpGet w t (BASE_URI @ SERVER_LIST_URI)")
    case (Inl e')
    with None assms show ?thesis
      by (simp add: getServerPromises_def useServerIPs_None await_Inl)
  next
    case (Inr serverList)
    have "useServerIPs w None t =
        (Inr (map first_token (split_lines [] serverList)), t @ [HttpGet (BASE_URI @ SERVER_LIST_URI)])"
      by (simp add: useServerIPs_None Inr)
    from getServerPromises_ips [OF this] None assms show ?thesis
      by (simp add: split_lines_nonempty)
  qed
next
  case (Some ips)
  show ?thesis
  proof (cases "ips = []")
    case True
    with Some assms show ?thesis
      by (simp add: getServerPromises_def useServerIPs_def await_Inr)
  next
    case False
    have "useServerIPs w (Some ips) t = (Inr ips, t)" by (simp add: useServerIPs_def)
    from getServerPromises_ips [OF this False] Some assms show ?thesis by simp
  qed
qed

lemma round_Inl:
  assumes "round w serverName serverIPs ports t = (Inl e, t1)" and "serverIPs \<noteq> Some []"
  shows "httpGet w t (BASE_URI @ SERVER_LIST_URI) = Inl e"
proof -
  from assms(1) have "getServerPromises w serverIPs ports t = (Inl e, t1)"
    by (auto simp: round_successes await_def split: prod.splits sum.splits)
  from getServerPromises_Inl [OF this] assms(2) show ?thesis by simp
qed

lemma resolve_Inl:
  "resolve w serverName plan t = (Inl e, t1) \<Longrightarrow> \<forall>stage\<in>set plan. fst stage \<noteq> Some [] \<Longrightarrow>
     \<exists>t0. httpGet w t0 (BASE_URI @ SERVER_LIST_URI) = Inl e"
proof (induction plan arbitrary: t)
  case Nil
  then show ?case by simp
next
  case (Cons stage plan)
  obtain a b where stage: "stage = (a, b)" by (cases stage)
  obtain res t' where r: "round w serverName a b t = (res, t')" by (cases "round w serverName a b t")
  show ?case
  proof (cases res)
    case (Inl e')
    with r Cons.prems stage have "round w serverName a b t = (Inl e, t')"
      by (simp add: await_Inl)
    moreover from Cons.prems(2) stage have "a \<noteq> Some []" by simp
    ultimately show ?thesis by (blast dest: round_Inl)
  next
    case (Inr found)
    show ?thesis
    proof (cases found)
      case Nil
      with Inr r Cons.prems stage have "resolve w serverName plan t' = (Inl e, t1)"
        by (simp add: await_Inr)
      then show ?thesis using Cons.prems(2) by (intro Cons.IH) simp_all
    next
      case (Cons info others)
      with Inr r Cons.prems(1) stage show ?thesis by (simp add: await_Inr)
    qed
  qed
qed

lemma host_arg_nonempty: "host_arg h \<noteq> Some []"
  by (simp add: host_arg_def split: option.splits)

lemma product_Nil_right: "List.product xs [] = []"
  by (induction xs) simp_all

lemma length_product_targets: "length (targets ips ps) = length ips * length ps"
  by (simp add: targets_def)

lemma set_targets:
  "set (targets ips ps) = {queryForHost ip p | ip p. ip \<in> set ips \<and> p \<in> set ps}"
  by (auto simp: targets_def)

lemma inj_queryForHost: "queryForHost ip p = queryForHost ip' p' \<longleftrightarrow> ip = ip' \<and> p = p'"
  by (auto simp: queryForHost_def)

lemma distinct_targets: "distinct ips \<Longrightarrow> distinct ps \<Longrightarrow> distinct (targets ips ps)"
  by (auto simp: targets_def distinct_map distinct_product inj_on_def inj_queryForHost)


text \<open>
  X1. A rejection of \<open>getServerList\<close> has one of two sources: the server-list fetch
  failed when no IP list was passed (the reason is that of the fetch, and nothing but the
  fetch was issued), or the IP list passed was empty (a \<^verbatim>\<open>TypeError\<close>, nothing
  issued). No failure of a query rejects it.
\<close>

theorem getServerList_rejections:
  assumes "getServerList w serverIPs ports t = (Inl e, t1)"
  shows "(serverIPs = None \<and> httpGet w t (BASE_URI @ SERVER_LIST_URI) = Inl e \<and>
            t1 = t @ [HttpGet (BASE_URI @ SERVER_LIST_URI)]) \<or>
         (serverIPs = Some [] \<and> e = TypeError \<and> t1 = t)"
proof -
  from assms have "getServerPromises w serverIPs ports t = (Inl e, t1)"
    by (simp add: getServerList_successes await_def split: prod.splits sum.splits)
  then show ?thesis by (rule getServerPromises_Inl)
qed

theorem getServerList_rejections_witness:
  "getServerList offline None None [] =
     (Inl (Failure ''ENOTFOUND''), [HttpGet ''http://arkdedicated.com/officialservers.ini'']) \<and>
   httpGet offline [] (BASE_URI @ SERVER_LIST_URI) = Inl (Failure ''ENOTFOUND'')"
proof -
  have ev: "getServerList offline None None [] =
     (Inl (Failure ''ENOTFOUND''), [HttpGet ''http://arkdedicated.com/officialservers.ini''])"
    by (simp add: getServerList_def getServerPromises_def useServerIPs_None await_Inl offline_def
        BASE_URI_def SERVER_LIST_URI_def)
  from getServerList_rejections [OF ev] show ?thesis
    using ev by simp
qed


text \<open>
  X2. \<open>getServerInfo\<close> never passes an empty IP list, so its only rejection is a failed
  server-list fetch.
\<close>

theorem getServerInfo_rejections:
  assumes "getServerInfo w serverName opts t = (Inl e, t1)"
  shows "\<exists>t0. httpGet w t0 (BASE_URI @ SERVER_LIST_URI) = Inl e"
proof -
  have "\<forall>stage\<in>set (stage_plan opts). fst stage \<noteq> Some []"
    by (auto simp: stage_plan_def hinted_stage_def host_only_stage_def port_only_stage_def
        full_scan_stage_def host_arg_nonempty)
  with assms show ?thesis
    unfolding getServerInfo_resolve by (rule resolve_Inl)
qed

theorem getServerInfo_rejections_witness:
  "getServerInfo offline ''Srv-A'' \<lparr>host = Some ''1.2.3.4'', port = None, fallback = None\<rparr> [] =
     (Inl (Failure ''ENOTFOUND''),
      map Gamedig (targets [''1.2.3.4''] PORT_LIST) @
      [HttpGet ''http://arkdedicated.com/officialservers.ini'']) \<and>
   (\<exists>t0. httpGet offline t0 (BASE_URI @ SERVER_LIST_URI) = Inl (Failure ''ENOTFOUND''))"
proof -
  have rec: "record_of offline t query = record_of fleet t query" for t query
    by (simp add: record_of_def offline_def)
  have r1: "round offline ''Srv-A'' (Some [''1.2.3.4'']) None [] =
      (Inr [], map Gamedig (targets [''1.2.3.4''] PORT_LIST))"
    using round_ips [of offline "Some [''1.2.3.4'']" "[]" "[''1.2.3.4'']" "[]" "''Srv-A''" None]
    by (simp add: useServerIPs_def usePorts_def rec PORT_LIST_def targets_def fleet_record_of
        queryForHost_def name_info_of)
  have r2: "round offline ''Srv-A'' None None t =
      (Inl (Failure ''ENOTFOUND''), t @ [HttpGet ''http://arkdedicated.com/officialservers.ini''])" for t
    by (simp add: round_def getServerList_def getServerPromises_def useServerIPs_None await_Inl
        offline_def BASE_URI_def SERVER_LIST_URI_def)
  have ev: "getServerInfo offline ''Srv-A'' \<lparr>host = Some ''1.2.3.4'', port = None, fallback = None\<rparr> [] =
     (Inl (Failure ''ENOTFOUND''),
      map Gamedig (targets [''1.2.3.4''] PORT_LIST) @
      [HttpGet ''http://arkdedicated.com/officialservers.ini''])"
    by (simp add: getServerInfo_resolve stage_plan_def hinted_stage_def full_scan_stage_def
        use_fallback_def truthy_host_def truthy_port_def host_arg_def port_arg_def
        r1 r2 await_Inr await_Inl)
  from getServerInfo_rejections [OF ev] ev show ?thesis by blast
qed


text \<open>
  X3. For an IP list that is not empty (passed or fetched) and any port list (passed or
  default, the empty one included) \<open>getServerPromises\<close> dispatches exactly the targets of
  the Cartesian product, IP-major, one promise per pair.
\<close>

theorem targets_are_cartesian_product:
  assumes "useServerIPs w serverIPs t = (Inr ips, t1)" and "ips \<noteq> []"
  shows "\<exists>serverPromises.
           getServerPromises w serverIPs ports t =
             (Inr serverPromises, t1 @ map Gamedig (targets ips (usePorts ports))) \<and>
           length serverPromises = length ips * length (usePorts ports) \<and>
           set (targets ips (usePorts ports)) =
             {queryForHost ip p | ip p. ip \<in> set ips \<and> p \<in> set (usePorts ports)} \<and>
           (distinct ips \<and> distinct (usePorts ports) \<longrightarrow> distinct (targets ips (usePorts ports))) \<and>
           (usePorts ports = [] \<longrightarrow> serverPromises = [] \<and> targets ips (usePorts ports) = [])"
proof -
  let ?T = "targets ips (usePorts ports)"
  have "getServerPromises w serverIPs ports t = (Inr (fst (dispatch w ?T t1)), t1 @ map Gamedig ?T)"
    by (rule getServerPromises_ips [OF assms])
  moreover have "length (fst (dispatch w ?T t1)) = length ips * length (usePorts ports)"
    by (simp add: length_dispatch length_product_targets)
  moreover have "usePorts ports = [] \<longrightarrow> fst (dispatch w ?T t1) = [] \<and> ?T = []"
    by (simp add: targets_def product_Nil_right)
  ultimately show ?thesis
    using set_targets [of ips "usePorts ports"] distinct_targets [of ips "usePorts ports"]
    by blast
qed

theorem targets_are_cartesian_product_witness:
  "\<exists>serverPromises.
     getServerPromises fleet None (Some [27015, 27019]) [] =
       (Inr serverPromises,
        [HttpGet ''http://arkdedicated.com/officialservers.ini'',
         Gamedig (queryForHost ''1.2.3.4'' 27015), Gamedig (queryForHost ''1.2.3.4'' 27019),
         Gamedig (queryForHost ''5.6.7.8'' 27015), Gamedig (queryForHost ''5.6.7.8'' 27019)]) \<and>
     length serverPromises = 4"
proof -
  have ne: "[''1.2.3.4'', ''5.6.7.8''] \<noteq> []" by simp
  from targets_are_cartesian_product [OF fleet_ips [of "[]"] ne, where ports = "Some [27015, 27019]"]
  obtain serverPromises where
    "getServerPromises fleet None (Some [27015, 27019]) [] =
       (Inr serverPromises,
        [HttpGet ''http://arkdedicated.com/officialservers.ini''] @
        map Gamedig (targets [''1.2.3.4'', ''5.6.7.8''] (usePorts (Some [27015, 27019]))))"
    "length serverPromises = length [''1.2.3.4'', ''5.6.7.8''] * length (usePorts (Some [27015, 27019]))"
    by (elim exE conjE) (simp only: append_Nil)
  then show ?thesis
    by (simp add: usePorts_def targets_def)
qed


section \<open>The cache as a state machine\<close>

lemma count_list_remove1:
  "count_list (remove1 k xs) k' =
     (if k' = k \<and> k \<in> set xs then count_list xs k' - 1 else count_list xs k')"
  by (induction xs) auto

lemma count_list_pos: "k \<in> set xs \<longleftrightarrow> 0 < count_list xs k"
  by (induction xs) auto

lemma cache_inv_startup: "cache_inv startup"
  by (simp add: cache_inv_def startup_def makeCacher_def)

lemma cache_inv_count:
  "cache_inv c \<Longrightarrow> count_list (inFlight c) k = (if inProgress (closures c k) then 1 else 0)"
  unfolding cache_inv_def by blast

lemma cache_inv_in_flight:
  "cache_inv c \<Longrightarrow> k \<in> set (inFlight c) \<longleftrightarrow> inProgress (closures c k)"
  by (simp add: cache_inv_count count_list_pos)

lemma cache_inv_in_progress:
  "cache_inv c \<Longrightarrow> inProgress (closures c k) \<Longrightarrow> cachedValue (closures c k) = None"
  unfolding cache_inv_def by blast

lemma cache_inv_intro:
  "(\<And>k. count_list (inFlight c) k = (if inProgress (closures c k) then 1 else 0)) \<Longrightarrow>
   (\<And>k. inProgress (closures c k) \<Longrightarrow> cachedValue (closures c k) = None) \<Longrightarrow> cache_inv c"
  unfolding cache_inv_def by blast

lemma cache_inv_step:
  assumes inv: "cache_inv c" and st: "step c e = Some (ob, c')"
  shows "cache_inv c'"
proof (rule cache_inv_intro)
  fix k
  note cnt = cache_inv_count [OF inv]
  show "count_list (inFlight c') k = (if inProgress (closures c' k) then 1 else 0)"
  proof (cases e)
    case (Call k')
    with st cnt [of k] show ?thesis
      by (auto simp: cacher_def Let_def split: if_splits)
  next
    case (Fulfil k' result)
    with st cnt [of k] cnt [of k'] show ?thesis
      by (auto simp: on_result_def count_list_remove1 split: if_splits)
  next
    case (Reject k' reason)
    with st cnt [of k] cnt [of k'] show ?thesis
      by (auto simp: on_error_def count_list_remove1 split: if_splits)
  qed
next
  fix k
  assume ip: "inProgress (closures c' k)"
  note val = cache_inv_in_progress [OF inv]
  show "cachedValue (closures c' k) = None"
  proof (cases e)
    case (Call k')
    with st ip val [of k] show ?thesis
      by (auto simp: cacher_def Let_def split: if_splits)
  next
    case (Fulfil k' result)
    with st ip val [of k] show ?thesis
      by (auto simp: on_result_def split: if_splits)
  next
    case (Reject k' reason)
    with st ip val [of k] show ?thesis
      by (auto simp: on_error_def split: if_splits)
  qed
qed

lemma run_ConsD:
  "run c (e # es) = Some (obs, c2) \<Longrightarrow>
     \<exists>ob c1 obs'. step c e = Some (ob, c1) \<and> run c1 es = Some (obs', c2) \<and> obs = ob # obs'"
  by (auto split: option.splits)

lemma cache_inv_run:
  "cache_inv c \<Longrightarrow> run c es = Some (obs, c') \<Longrightarrow> cache_inv c'"
proof (induction es arbitrary: c obs)
  case Nil
  then show ?case by simp
next
  case (Cons e es)
  from run_ConsD [OF Cons.prems(2)] obtain ob c1 obs' where
    "step c e = Some (ob, c1)" "run c1 es = Some (obs', c')"
    by blast
  with Cons.IH Cons.prems(1) show ?case
    by (blast intro: cache_inv_step)
qed

lemma reachable_inv: "reachable c \<Longrightarrow> cache_inv c"
  by (auto simp: reachable_def intro: cache_inv_run [OF cache_inv_startup])

lemma run_append:
  "run c (es @ es') =
     (case run c es of
        None \<Rightarrow> None
      | Some (obs, c1) \<Rightarrow>
          (case run c1 es' of None \<Rightarrow> None | Some (obs', c2) \<Rightarrow> Some (obs @ obs', c2)))"
  by (induction es arbitrary: c) (auto split: option.splits)

lemma reachable_run:
  assumes "reachable c" and "run c es = Some (obs, c')"
  shows "reachable c'"
proof -
  from assms(1) obtain es0 obs0 where "run startup es0 = Some (obs0, c)"
    unfolding reachable_def by blast
  with assms(2) have "run startup (es0 @ es) = Some (obs0 @ obs, c')"
    by (simp add: run_append)
  then show ?thesis unfolding reachable_def by blast
qed

lemma length_run: "run c es = Some (obs, c') \<Longrightarrow> length obs = length es"
  by (induction es arbitrary: c obs) (auto split: option.splits)

text \<open>An event that neither calls nor settles \<open>k\<close> leaves the closure of \<open>k\<close> alone.\<close>

lemma step_quiet:
  assumes "cachedValue (closures c k) = None" and "\<not> settles k e" and "step c e = Some (ob, c1)"
  shows "cachedValue (closures c1 k) = None \<and>
         inProgress (closures c1 k) = (inProgress (closures c k) \<or> e = Call k) \<and>
         count_list (fetched c1) k =
           count_list (fetched c) k + (if \<not> inProgress (closures c k) \<and> e = Call k then 1 else 0) \<and>
         (e = Call k \<longrightarrow> ob = Returned k None)"
proof (cases e)
  case (Call k')
  with assms show ?thesis
    by (auto simp: cacher_def Let_def split: if_splits)
next
  case (Fulfil k' result)
  with assms show ?thesis
    by (auto simp: on_result_def split: if_splits)
next
  case (Reject k' reason)
  with assms show ?thesis
    by (auto simp: on_error_def split: if_splits)
qed

lemma run_quiet:
  assumes "cachedValue (closures c k) = None" and "\<forall>e\<in>set es. \<not> settles k e"
    and "run c es = Some (obs, c1)"
  shows "cachedValue (closures c1 k) = None \<and>
         inProgress (closures c1 k) = (inProgress (closures c k) \<or> Call k \<in> set es) \<and>
         count_list (fetched c1) k =
           count_list (fetched c) k + (if \<not> inProgress (closures c k) \<and> Call k \<in> set es then 1 else 0) \<and>
         (\<forall>i<length es. es ! i = Call k \<longrightarrow> obs ! i = Returned k None)"
  using assms
proof (induction es arbitrary: c obs)
  case Nil
  then show ?case by simp
next
  case (Cons e es)
  from run_ConsD [OF Cons.prems(3)] obtain ob c' obs' where
    st: "step c e = Some (ob, c')" and rn: "run c' es = Some (obs', c1)" and obs: "obs = ob # obs'"
    by blast
  from Cons.prems(1,2) st have
    s: "cachedValue (closures c' k) = None"
       "inProgress (closures c' k) = (inProgress (closures c k) \<or> e = Call k)"
       "count_list (fetched c') k =
           count_list (fetched c) k + (if \<not> inProgress (closures c k) \<and> e = Call k then 1 else 0)"
       "e = Call k \<longrightarrow> ob = Returned k None"
    using step_quiet [of c k e ob c'] by simp_all
  from Cons.prems(2) have q: "\<forall>e\<in>set es. \<not> settles k e" by simp
  note ih = Cons.IH [OF s(1) q rn]
  have idx: "\<forall>i<length (e # es). (e # es) ! i = Call k \<longrightarrow> obs ! i = Returned k None"
  proof (intro allI impI)
    fix i assume "i < length (e # es)" and "(e # es) ! i = Call k"
    then show "obs ! i = Returned k None"
      using ih s(4) obs by (cases i) auto
  qed
  from ih s idx show ?case by auto
qed

text \<open>Once a value is cached it stays, and no fetch of that key is started again.\<close>

lemma step_cached:
  assumes "cache_inv c" and "cachedValue (closures c k) = Some v" and "step c e = Some (ob, c1)"
  shows "cachedValue (closures c1 k) = Some v \<and>
         count_list (fetched c1) k = count_list (fetched c) k \<and>
         (e = Call k \<longrightarrow> ob = Returned k (Some v))"
proof -
  from assms(1,2) have np: "\<not> inProgress (closures c k)"
    using cache_inv_in_progress [of c k] by auto
  with assms(1) have nf: "k \<notin> set (inFlight c)"
    by (simp add: cache_inv_in_flight)
  show ?thesis
  proof (cases e)
    case (Call k')
    with assms show ?thesis
      by (auto simp: cacher_def Let_def split: if_splits)
  next
    case (Fulfil k' result)
    with assms nf show ?thesis
      by (auto simp: on_result_def split: if_splits)
  next
    case (Reject k' reason)
    with assms nf show ?thesis
      by (auto simp: on_error_def split: if_splits)
  qed
qed

lemma run_cached:
  assumes "cache_inv c" and "cachedValue (closures c k) = Some v" and "run c es = Some (obs, c1)"
  shows "cachedValue (closures c1 k) = Some v \<and>
         count_list (fetched c1) k = count_list (fetched c) k \<and>
         (\<forall>i<length es. es ! i = Call k \<longrightarrow> obs ! i = Returned k (Some v))"
  using assms
proof (induction es arbitrary: c obs)
  case Nil
  then show ?case by simp
next
  case (Cons e es)
  from run_ConsD [OF Cons.prems(3)] obtain ob c' obs' where
    st: "step c e = Some (ob, c')" and rn: "run c' es = Some (obs', c1)" and obs: "obs = ob # obs'"
    by blast
  from step_cached [OF Cons.prems(1,2) st] have
    s: "cachedValue (closures c' k) = Some v" "count_list (fetched c') k = count_list (fetched c) k"
       "e = Call k \<longrightarrow> ob = Returned k (Some v)"
    by simp_all
  have inv': "cache_inv c'" using Cons.prems(1) st by (rule cache_inv_step)
  note ih = Cons.IH [OF inv' s(1) rn]
  have idx: "\<forall>i<length (e # es). (e # es) ! i = Call k \<longrightarrow> obs ! i = Returned k (Some v)"
  proof (intro allI impI)
    fix i assume "i < length (e # es)" and "(e # es) ! i = Call k"
    then show "obs ! i = Returned k (Some v)"
      using ih s(3) obs by (cases i) auto
  qed
  from ih s idx show ?case by auto
qed

lemma step_Fulfil:
  assumes "cache_inv c" and "inProgress (closures c k)"
  shows "\<exists>c2. step c (Fulfil k result) = Some (Settled k, c2) \<and>
              cachedValue (closures c2 k) = Some result \<and> \<not> inProgress (closures c2 k) \<and>
              fetched c2 = fetched c"
  using assms by (simp add: cache_inv_in_flight on_result_def)

lemma step_Reject:
  assumes "cache_inv c" and "k \<in> set (inFlight c)"
  shows "\<exists>c1. step c (Reject k reason) = Some (Settled k, c1) \<and>
              cachedValue (closures c1 k) = cachedValue (closures c k) \<and>
              cachedValue (closures c1 k) = None \<and>
              \<not> inProgress (closures c1 k) \<and>
              k \<notin> set (inFlight c1) \<and>
              fetched c1 = fetched c \<and>
              (\<forall>k'. k' \<noteq> k \<longrightarrow> closures c1 k' = closures c k')"
proof -
  from assms have ip: "inProgress (closures c k)" by (simp add: cache_inv_in_flight)
  with assms(1) have v: "cachedValue (closures c k) = None" by (rule cache_inv_in_progress)
  have "count_list (inFlight c) k = 1" using assms(1) ip by (simp add: cache_inv_count)
  then have "k \<notin> set (remove1 k (inFlight c))"
    using assms(2) by (simp add: count_list_pos count_list_remove1)
  with assms(2) v show ?thesis by (simp add: on_error_def)
qed

lemma step_Call_fresh:
  assumes "cachedValue (closures c k) = None" and "\<not> inProgress (closures c k)"
  shows "\<exists>c2. step c (Call k) = Some (Returned k None, c2) \<and>
              fetched c2 = fetched c @ [k] \<and> inFlight c2 = inFlight c @ [k] \<and>
              inProgress (closures c2 k) \<and> cachedValue (closures c2 k) = None"
  using assms by (simp add: cacher_def Let_def)

lemma run_retry_rounds:
  assumes "cache_inv c" and "k \<in> set (inFlight c)"
  shows "\<exists>obs cn. run c (retry_rounds k reason n) = Some (obs, cn) \<and>
           cache_inv cn \<and> k \<in> set (inFlight cn) \<and>
           count_list (fetched cn) k = count_list (fetched c) k + n"
  using assms
proof (induction n arbitrary: c)
  case 0
  then show ?case by simp
next
  case (Suc n)
  from step_Reject [OF Suc.prems, of reason] obtain c1 where
    r: "step c (Reject k reason) = Some (Settled k, c1)"
       "cachedValue (closures c1 k) = None" "\<not> inProgress (closures c1 k)" "fetched c1 = fetched c"
    by blast
  from step_Call_fresh [OF r(2,3)] obtain c2 where
    g: "step c1 (Call k) = Some (Returned k None, c2)"
       "fetched c2 = fetched c1 @ [k]" "inFlight c2 = inFlight c1 @ [k]"
    by blast
  have inv2: "cache_inv c2"
    using Suc.prems(1) r(1) g(1) by (blast intro: cache_inv_step)
  have "k \<in> set (inFlight c2)" using g(3) by simp
  from Suc.IH [OF inv2 this] obtain obs cn where
    "run c2 (retry_rounds k reason n) = Some (obs, cn)" "cache_inv cn" "k \<in> set (inFlight cn)"
    "count_list (fetched cn) k = count_list (fetched c2) k + n"
    by blast
  with r g show ?case by simp
qed

lemma reachable_startup: "reachable startup"
proof -
  have "run startup [] = Some ([], startup)" by simp
  then show ?thesis unfolding reachable_def by blast
qed

lemma run_Call: "run c [Call k] = Some ([Returned k (fst (cacher k c))], snd (cacher k c))"
  by (simp add: split_def Let_def)


text \<open>The state after loading the module is reachable, with one fetch per endpoint in flight.\<close>

lemma module_load_run:
  "run startup [Call (BASE_URI, VERSION_URI), Call (BASE_URI, STATUS_URI), Call (BASE_URI, NEWS_URI)] =
     Some ([Returned (BASE_URI, VERSION_URI) None, Returned (BASE_URI, STATUS_URI) None,
            Returned (BASE_URI, NEWS_URI) None], module_load)"
  by (simp add: module_load_def getCachedVersion_def getCachedStatus_def getCachedNews_def
      startup_def makeCacher_def cacher_def Let_def split_def
      BASE_URI_def VERSION_URI_def STATUS_URI_def NEWS_URI_def)

lemma module_load_reachable: "reachable module_load"
  unfolding reachable_def using module_load_run by blast

lemma module_load_fetched:
  "fetched module_load = [(BASE_URI, VERSION_URI), (BASE_URI, STATUS_URI), (BASE_URI, NEWS_URI)] \<and>
   inFlight module_load = [(BASE_URI, VERSION_URI), (BASE_URI, STATUS_URI), (BASE_URI, NEWS_URI)]"
  by (simp add: module_load_def getCachedVersion_def getCachedStatus_def getCachedNews_def
      startup_def makeCacher_def cacher_def Let_def
      BASE_URI_def VERSION_URI_def STATUS_URI_def NEWS_URI_def)


section \<open>Claims about the cache\<close>

text \<open>
  C1 (single flight). Take any state the module can reach in which no value is cached
  for the key \<open>k\<close>, and any sequence of events in which no fetch of \<open>k\<close> settles and
  \<open>k\<close> is called at least once (calls and settlings of other keys may be interleaved).
  Then exactly one fetch of \<open>k\<close> is outstanding afterwards and the flag is set: one new
  fetch was started if none was in progress, none otherwise. Every call of \<open>k\<close> in the
  sequence returned \<^verbatim>\<open>null\<close>. That fetch can be fulfilled, and from then on, whatever
  happens, every call of \<open>k\<close> returns the fetched text and no further fetch of \<open>k\<close> is
  started.
\<close>

theorem single_flight:
  assumes "reachable c"
    and "cachedValue (closures c k) = None"
    and "run c es = Some (obs, c1)"
    and "\<forall>e\<in>set es. \<not> settles k e"
    and "Call k \<in> set es"
  shows "count_list (fetched c1) k =
           count_list (fetched c) k + (if inProgress (closures c k) then 0 else 1) \<and>
         inProgress (closures c1 k) \<and>
         count_list (inFlight c1) k = 1 \<and>
         (\<forall>i<length es. es ! i = Call k \<longrightarrow> obs ! i = Returned k None) \<and>
         (\<exists>c2. step c1 (Fulfil k result) = Some (Settled k, c2) \<and>
            cachedValue (closures c2 k) = Some result \<and>
            (\<forall>es' obs' c3. run c2 es' = Some (obs', c3) \<longrightarrow>
               count_list (fetched c3) k = count_list (fetched c1) k \<and>
               (\<forall>i<length es'. es' ! i = Call k \<longrightarrow> obs' ! i = Returned k (Some result))))"
proof -
  from run_quiet [OF assms(2,4,3)] assms(5) have
    q: "cachedValue (closures c1 k) = None" "inProgress (closures c1 k)"
       "count_list (fetched c1) k =
          count_list (fetched c) k + (if inProgress (closures c k) then 0 else 1)"
       "\<forall>i<length es. es ! i = Call k \<longrightarrow> obs ! i = Returned k None"
    by auto
  have inv1: "cache_inv c1"
    using assms(1,3) by (blast intro: reachable_inv reachable_run)
  then have one: "count_list (inFlight c1) k = 1"
    using q(2) by (simp add: cache_inv_count)
  from step_Fulfil [OF inv1 q(2), of result] obtain c2 where
    f: "step c1 (Fulfil k result) = Some (Settled k, c2)"
       "cachedValue (closures c2 k) = Some result" "fetched c2 = fetched c1"
    by blast
  have inv2: "cache_inv c2" using inv1 f(1) by (rule cache_inv_step)
  have "count_list (fetched c3) k = count_list (fetched c1) k \<and>
        (\<forall>i<length es'. es' ! i = Call k \<longrightarrow> obs' ! i = Returned k (Some result))"
    if "run c2 es' = Some (obs', c3)" for es' obs' c3
    using run_cached [OF inv2 f(2) that] f(3) by simp
  with q one f show ?thesis by blast
qed


text \<open>
  From startup: four calls, three of them for the version, start one fetch per key; after
  the version fetch is fulfilled with \<open>281.110\<close> the next call returns it.
\<close>

theorem single_flight_witness:
  "\<exists>obs c1.
     run startup [Call (''http://h'', ''/version''), Call (''http://h'', ''/news.ini''),
                  Call (''http://h'', ''/version''), Call (''http://h'', ''/version'')] = Some (obs, c1) \<and>
     obs = [Returned (''http://h'', ''/version'') None, Returned (''http://h'', ''/news.ini'') None,
            Returned (''http://h'', ''/version'') None, Returned (''http://h'', ''/version'') None] \<and>
     fetched c1 = [(''http://h'', ''/version''), (''http://h'', ''/news.ini'')] \<and>
     count_list (fetched c1) (''http://h'', ''/version'') = 1 \<and>
     (\<exists>c2 c3.
        step c1 (Fulfil (''http://h'', ''/version'') ''281.110'') = Some (Settled (''http://h'', ''/version''), c2) \<and>
        run c2 [Call (''http://h'', ''/version'')] =
          Some ([Returned (''http://h'', ''/version'') (Some ''281.110'')], c3) \<and>
        count_list (fetched c3) (''http://h'', ''/version'') = 1)"
proof -
  let ?kv = "(''http://h'', ''/version'')"
  let ?kn = "(''http://h'', ''/news.ini'')"
  let ?es = "[Call ?kv, Call ?kn, Call ?kv, Call ?kv]"
  have "\<exists>obs c1. run startup ?es = Some (obs, c1) \<and>
          obs = [Returned ?kv None, Returned ?kn None, Returned ?kv None, Returned ?kv None] \<and>
          fetched c1 = [?kv, ?kn]"
    by (simp add: startup_def makeCacher_def cacher_def Let_def)
  then obtain obs c1 where
    rn: "run startup ?es = Some (obs, c1)"
    and obs: "obs = [Returned ?kv None, Returned ?kn None, Returned ?kv None, Returned ?kv None]"
    and fetched: "fetched c1 = [?kv, ?kn]"
    by blast
  have h1: "cachedValue (closures startup ?kv) = None"
    by (simp add: startup_def makeCacher_def)
  have h2: "\<forall>e\<in>set ?es. \<not> settles ?kv e" by simp
  have h3: "Call ?kv \<in> set ?es" by simp
  have h4: "\<not> inProgress (closures startup ?kv)"
    by (simp add: startup_def makeCacher_def)
  note inst = single_flight [OF reachable_startup h1 rn h2 h3, of "''281.110''"]
  from inst h4 have cnt: "count_list (fetched c1) ?kv = count_list (fetched startup) ?kv + 1"
    by (simp only: if_False conjunct1)
  from inst obtain c2 where
    st: "step c1 (Fulfil ?kv ''281.110'') = Some (Settled ?kv, c2)"
    and later: "\<forall>es' obs' c3. run c2 es' = Some (obs', c3) \<longrightarrow>
        count_list (fetched c3) ?kv = count_list (fetched c1) ?kv \<and>
        (\<forall>i<length es'. es' ! i = Call ?kv \<longrightarrow> obs' ! i = Returned ?kv (Some ''281.110''))"
    by (elim conjE exE) blast
  from later run_Call [of c2 ?kv]
  have "count_list (fetched (snd (cacher ?kv c2))) ?kv = count_list (fetched c1) ?kv \<and>
        (\<forall>i<length [Call ?kv]. [Call ?kv] ! i = Call ?kv \<longrightarrow>
           [Returned ?kv (fst (cacher ?kv c2))] ! i = Returned ?kv (Some ''281.110''))"
    by blast
  then have "count_list (fetched (snd (cacher ?kv c2))) ?kv = count_list (fetched c1) ?kv"
    and "Returned ?kv (fst (cacher ?kv c2)) = Returned ?kv (Some ''281.110'')"
    by simp_all
  with run_Call [of c2 ?kv] cnt
  have "run c2 [Call ?kv] = Some ([Returned ?kv (Some ''281.110'')], snd (cacher ?kv c2))"
    and "count_list (fetched (snd (cacher ?kv c2))) ?kv = 1"
    by (simp_all add: startup_def)
  with rn obs fetched cnt st show ?thesis
    by (simp add: startup_def)
qed


text \<open>
  C4 (retry after failure). In any reachable state with a fetch of \<open>k\<close> in flight, the
  failure of that fetch leaves the cached value as it was, which is \<^verbatim>\<open>null\<close>, clears
  the flag and leaves no fetch of \<open>k\<close> in flight; the next call of \<open>k\<close> returns
  \<^verbatim>\<open>null\<close> and starts exactly one new fetch. There is no limit and no back-off: any
  number \<open>n\<close> of failure-and-call rounds runs, and starts \<open>n\<close> fetches.
\<close>

theorem retry_after_failure:
  assumes "reachable c" and "k \<in> set (inFlight c)"
  shows "(\<exists>c1 c2.
            step c (Reject k reason) = Some (Settled k, c1) \<and>
            cachedValue (closures c1 k) = cachedValue (closures c k) \<and>
            cachedValue (closures c1 k) = None \<and>
            \<not> inProgress (closures c1 k) \<and>
            k \<notin> set (inFlight c1) \<and>
            fetched c1 = fetched c \<and>
            step c1 (Call k) = Some (Returned k None, c2) \<and>
            fetched c2 = fetched c1 @ [k] \<and>
            inFlight c2 = inFlight c1 @ [k] \<and>
            inProgress (closures c2 k)) \<and>
         (\<exists>obs cn. run c (retry_rounds k reason n) = Some (obs, cn) \<and>
            count_list (fetched cn) k = count_list (fetched c) k + n)"
proof -
  have inv: "cache_inv c" using assms(1) by (rule reachable_inv)
  from step_Reject [OF inv assms(2), of reason] obtain c1 where
    r: "step c (Reject k reason) = Some (Settled k, c1)"
       "cachedValue (closures c1 k) = cachedValue (closures c k)"
       "cachedValue (closures c1 k) = None" "\<not> inProgress (closures c1 k)"
       "k \<notin> set (inFlight c1)" "fetched c1 = fetched c"
    by blast
  from step_Call_fresh [OF r(3,4)] obtain c2 where
    g: "step c1 (Call k) = Some (Returned k None, c2)"
       "fetched c2 = fetched c1 @ [k]" "inFlight c2 = inFlight c1 @ [k]" "inProgress (closures c2 k)"
    by blast
  from run_retry_rounds [OF inv assms(2), of reason n] r g show ?thesis by blast
qed


theorem retry_after_failure_witness:
  "\<exists>obs0 c0.
     run startup [Call (''http://h'', ''/version'')] = Some (obs0, c0) \<and>
     (''http://h'', ''/version'') \<in> set (inFlight c0) \<and>
     (\<exists>c1 c2.
        step c0 (Reject (''http://h'', ''/version'') ''ECONNRESET'') =
          Some (Settled (''http://h'', ''/version''), c1) \<and>
        cachedValue (closures c1 (''http://h'', ''/version'')) = None \<and>
        \<not> inProgress (closures c1 (''http://h'', ''/version'')) \<and>
        step c1 (Call (''http://h'', ''/version'')) = Some (Returned (''http://h'', ''/version'') None, c2) \<and>
        fetched c2 = [(''http://h'', ''/version''), (''http://h'', ''/version'')]) \<and>
     (\<exists>obs cn.
        run c0 (retry_rounds (''http://h'', ''/version'') ''ECONNRESET'' 2) = Some (obs, cn) \<and>
        count_list (fetched cn) (''http://h'', ''/version'') = 3)"
proof -
  let ?kv = "(''http://h'', ''/version'')"
  have "\<exists>obs0 c0. run startup [Call ?kv] = Some (obs0, c0) \<and> ?kv \<in> set (inFlight c0) \<and>
          fetched c0 = [?kv]"
    by (simp add: startup_def makeCacher_def cacher_def Let_def)
  then obtain obs0 c0 where
    rn: "run startup [Call ?kv] = Some (obs0, c0)" and fl: "?kv \<in> set (inFlight c0)"
    and f0: "fetched c0 = [?kv]"
    by blast
  from rn have reach: "reachable c0" unfolding reachable_def by blast
  note inst = retry_after_failure [OF reach fl, of "''ECONNRESET''" 2]
  from inst obtain c1 c2 where
    a: "step c0 (Reject ?kv ''ECONNRESET'') = Some (Settled ?kv, c1)"
       "cachedValue (closures c1 ?kv) = None" "\<not> inProgress (closures c1 ?kv)"
       "fetched c1 = fetched c0"
       "step c1 (Call ?kv) = Some (Returned ?kv None, c2)" "fetched c2 = fetched c1 @ [?kv]"
    by (elim conjE exE) blast
  from inst obtain obs cn where
    b: "run c0 (retry_rounds ?kv ''ECONNRESET'' 2) = Some (obs, cn)"
       "count_list (fetched cn) ?kv = count_list (fetched c0) ?kv + 2"
    by (elim conjE exE) blast
  from a(4,6) f0 have f2: "fetched c2 = [?kv, ?kv]" by simp
  from b(2) f0 have cn: "count_list (fetched cn) ?kv = 3" by simp
  from a(1,2,3,5) f2 b(1) cn
  have "(\<exists>c1 c2.
        step c0 (Reject ?kv ''ECONNRESET'') = Some (Settled ?kv, c1) \<and>
        cachedValue (closures c1 ?kv) = None \<and>
        \<not> inProgress (closures c1 ?kv) \<and>
        step c1 (Call ?kv) = Some (Returned ?kv None, c2) \<and>
        fetched c2 = [?kv, ?kv]) \<and>
     (\<exists>obs cn.
        run c0 (retry_rounds ?kv ''ECONNRESET'' 2) = Some (obs, cn) \<and>
        count_list (fetched cn) ?kv = 3)"
    by blast
  with rn fl show ?thesis by blast
qed


end
